theory Spec2Isabelle
  imports Main "HOL-Library.Multiset" "HOL-Library.Sublist"
begin

section \<open>The function composer (compose, src/src/compose.js)\<close>

text \<open>
  \<^verbatim>\<open>compose(...funcs)\<close> takes its functions as an argument array; the model takes the
  list. All the functions of one list have one HOL type \<open>'a \<Rightarrow> 'a\<close>: this covers the chains
  the repository itself builds (dispatch wrappers, store enhancers). A JavaScript function
  is modelled by the HOL function it computes, so "the same function" is equality of
  functions.
\<close>

definition compose :: "('a \<Rightarrow> 'a) list \<Rightarrow> 'a \<Rightarrow> 'a" where
  "compose funcs =
     (if length funcs = 0 then (\<lambda>arg. arg)
      else if length funcs = 1 then funcs ! 0
      else (let last = funcs ! (length funcs - 1);
                rest = take (length funcs - 1) funcs
            in (\<lambda>args. foldr (\<lambda>f composed. f composed) rest (last args))))"

section \<open>JavaScript values\<close>

text \<open>
  The values the reducers and the store handle. A plain object carries its identity (the
  address it was allocated at) and its own properties in insertion order; state objects are
  never updated in place by this repository, so the properties are part of the value.
  \<open>Obj\<close> is an object whose prototype is \<^verbatim>\<open>Object.prototype\<close>, \<open>Bare\<close> one with no prototype
  (\<^verbatim>\<open>Object.create(null)\<close>); both are plain objects for \<^verbatim>\<open>isPlainObject\<close>. A property value
  is a value of this type, so no property holds a function.
  \<open>Inst\<close> is an object that is not a plain one (an instance of a class, with the default
  \<^verbatim>\<open>toString\<close>), known by its identity only. Numbers are integers (no \<open>NaN\<close>). A fresh identity is taken from an
  allocation counter that every function which builds an object takes and returns.
  Property reads see own properties only: keys are assumed not to name a property
  inherited from a prototype, nor an index or the length of a string.
\<close>

datatype jsval =
    Undefined
  | Null
  | Bool bool
  | Num int
  | Str string
  | Obj nat "(string \<times> jsval) list"
  | Bare nat "(string \<times> jsval) list"
  | Inst nat

text \<open>What a \<^verbatim>\<open>throw\<close> carries: an \<^verbatim>\<open>Error\<close> or \<^verbatim>\<open>TypeError\<close> with its message, or any
  other value thrown by the caller's functions.\<close>

datatype error = Error string | TypeError string | Thrown jsval

text \<open>An argument that is tested with \<^verbatim>\<open>typeof x === 'function'\<close>: a function (given
  by what it computes) or another value.\<close>

datatype 'f jsarg = Fn 'f | Val jsval

text \<open>\<^verbatim>\<open>a !== b\<close>: objects by identity, primitive values by value.\<close>

fun strict_neq :: "jsval \<Rightarrow> jsval \<Rightarrow> bool" where
  "strict_neq (Obj i ps) (Obj j qs) = (i \<noteq> j)"
| "strict_neq (Bare i ps) (Bare j qs) = (i \<noteq> j)"
| "strict_neq (Inst i) (Inst j) = (i \<noteq> j)"
| "strict_neq a b = (a \<noteq> b)"

text \<open>Truthiness, as \<^verbatim>\<open>if (x)\<close>, \<^verbatim>\<open>x && y\<close> and \<^verbatim>\<open>x || y\<close> test it.\<close>

fun truthy :: "jsval \<Rightarrow> bool" where
  "truthy Undefined = False"
| "truthy Null = False"
| "truthy (Bool b) = b"
| "truthy (Num n) = (n \<noteq> 0)"
| "truthy (Str s) = (s \<noteq> [])"
| "truthy (Obj i ps) = True"
| "truthy (Bare i ps) = True"
| "truthy (Inst i) = True"

fun truthy_error :: "error \<Rightarrow> bool" where
  "truthy_error (Thrown v) = truthy v"
| "truthy_error e = True"

fun digits :: "nat \<Rightarrow> string" where
  "digits n = (if n < 10 then [char_of (48 + n)] else digits (n div 10) @ [char_of (48 + n mod 10)])"

text \<open>
  \<^verbatim>\<open>x.toString()\<close>. The call throws a TypeError when the value has no callable \<^verbatim>\<open>toString\<close>:
  \<^verbatim>\<open>undefined\<close> and \<^verbatim>\<open>null\<close>, an object with an own property \<^verbatim>\<open>toString\<close> (no property
  holds a function) and an object with no prototype. Other objects have the default
  method. A number below \<open>10^21\<close> in magnitude prints its decimal digits; a larger one prints
  in exponent notation, whose digits depend on the floating-point value: that string is
  left unspecified (\<open>exponent_notation\<close>), and nothing below depends on it.
\<close>

definition exponent_notation :: "int \<Rightarrow> string" where
  "exponent_notation = undefined"

fun toString :: "jsval \<Rightarrow> error + string" where
  "toString (Str s) = Inr s"
| "toString (Num n) =
     Inr (if \<bar>n\<bar> < 10 ^ 21
          then (if n < 0 then CHR ''-'' # digits (nat (- n)) else digits (nat n))
          else exponent_notation n)"
| "toString (Bool b) = Inr (if b then ''true'' else ''false'')"
| "toString (Obj i ps) =
     (if ''toString'' \<in> fst ` set ps then Inl (TypeError ''actionType.toString is not a function'')
      else Inr ''[object Object]'')"
| "toString (Bare i ps) = Inl (TypeError ''actionType.toString is not a function'')"
| "toString (Inst i) = Inr ''[object Object]''"
| "toString Undefined = Inl (TypeError ''Cannot read property 'toString' of undefined'')"
| "toString Null = Inl (TypeError ''Cannot read property 'toString' of null'')"

text \<open>\<^verbatim>\<open>o[key]\<close>: reading a property of \<^verbatim>\<open>null\<close> or \<^verbatim>\<open>undefined\<close> throws a TypeError; a
  missing property reads as \<^verbatim>\<open>undefined\<close>.\<close>

fun get_prop :: "jsval \<Rightarrow> string \<Rightarrow> error + jsval" where
  "get_prop (Obj i ps) key = Inr (case map_of ps key of Some v \<Rightarrow> v | None \<Rightarrow> Undefined)"
| "get_prop (Bare i ps) key = Inr (case map_of ps key of Some v \<Rightarrow> v | None \<Rightarrow> Undefined)"
| "get_prop Undefined key = Inl (TypeError ''Cannot read property of undefined'')"
| "get_prop Null key = Inl (TypeError ''Cannot read property of null'')"
| "get_prop v key = Inr Undefined"

text \<open>\<^verbatim>\<open>o[key] = v\<close> on the property list of a plain object: an existing key keeps its
  place, a new key goes last.\<close>

fun obj_set :: "(string \<times> 'v) list \<Rightarrow> string \<Rightarrow> 'v \<Rightarrow> (string \<times> 'v) list" where
  "obj_set [] key v = [(key, v)]"
| "obj_set (p # ps) key v = (if fst p = key then (key, v) # ps else p # obj_set ps key v)"

text \<open>\<^verbatim>\<open>isPlainObject\<close> of lodash.\<close>

fun isPlainObject :: "jsval \<Rightarrow> bool" where
  "isPlainObject (Obj i ps) = True"
| "isPlainObject (Bare i ps) = True"
| "isPlainObject v = False"

section \<open>The reducer composer (combineReducers, src/src/combineReducers.js lines 1-178)\<close>

text \<open>
  A sub-reducer is a function of the previous state, the action and the allocation
  counter; it returns a value or throws, and returns the counter. The advisory warnings
  (\<^verbatim>\<open>warning(...)\<close>, the unexpected-key cache) only print to the console and never change
  a result; they are not part of the model.
\<close>

type_synonym reducer = "jsval \<Rightarrow> jsval \<Rightarrow> nat \<Rightarrow> (error + jsval) \<times> nat"

definition INIT :: string where
  "INIT = ''@@redux/INIT''"

text \<open>\<^verbatim>\<open>action && action.type\<close>, the variable \<^verbatim>\<open>actionType\<close> of
  \<^verbatim>\<open>getUndefinedStateErrorMessage\<close>.\<close>

definition actionType :: "jsval \<Rightarrow> jsval" where
  "actionType action =
     (if truthy action
      then (case get_prop action ''type'' of Inr t \<Rightarrow> t | Inl e \<Rightarrow> Undefined)
      else action)"

text \<open>\<^verbatim>\<open>getUndefinedStateErrorMessage\<close> returns the message, or throws what
  \<^verbatim>\<open>actionType.toString()\<close> throws.\<close>

definition getUndefinedStateErrorMessage :: "string \<Rightarrow> jsval \<Rightarrow> error + string" where
  "getUndefinedStateErrorMessage key action =
     (case (if truthy (actionType action)
            then (case toString (actionType action) of
                    Inl e \<Rightarrow> Inl e
                  | Inr s \<Rightarrow> Inr (''\"'' @ s @ ''\"''))
            else Inr ''an action'') of
        Inl e \<Rightarrow> Inl e
      | Inr actionName \<Rightarrow>
          Inr (''Given action '' @ actionName @ '', reducer \"'' @ key @ ''\" returned undefined. '' @
               ''To ignore an action, you must explicitly return the previous state.''))"

text \<open>\<^verbatim>\<open>s.split('').join('.')\<close>.\<close>

fun join_dots :: "string \<Rightarrow> string" where
  "join_dots [] = []"
| "join_dots [c] = [c]"
| "join_dots (c # cs) = c # CHR ''.'' # join_dots cs"

text \<open>
  \<^verbatim>\<open>assertReducerSanity\<close>. \<open>rand i\<close> is the string \<^verbatim>\<open>Math.random().toString(36).substring(7)\<close>
  drawn for the \<open>i\<close>-th key. The loop runs over the entries of \<open>finalReducers\<close> in key
  order and stops at the first throw. Each probe action is a new object.
\<close>

fun assertReducerSanity ::
  "(string \<times> reducer) list \<Rightarrow> (nat \<Rightarrow> string) \<Rightarrow> nat \<Rightarrow> nat \<Rightarrow> (error + unit) \<times> nat" where
  "assertReducerSanity [] rand i n = (Inr (), n)"
| "assertReducerSanity ((key, reducer) # rest) rand i n =
     (case reducer Undefined (Obj n [(''type'', Str INIT)]) (Suc n) of
        (Inl e, n1) \<Rightarrow> (Inl e, n1)
      | (Inr initialState, n1) \<Rightarrow>
          if initialState = Undefined then
            (Inl (Error (''Reducer \"'' @ key @ ''\" returned undefined during initialization. '' @
               ''If the state passed to the reducer is undefined, you must '' @
               ''explicitly return the initial state. The initial state may '' @
               ''not be undefined.'')), n1)
          else
            (let type = ''@@redux/PROBE_UNKNOWN_ACTION_'' @ join_dots (rand i) in
             case reducer Undefined (Obj n1 [(''type'', Str type)]) (Suc n1) of
               (Inl e, n2) \<Rightarrow> (Inl e, n2)
             | (Inr probed, n2) \<Rightarrow>
                 if probed = Undefined then
                   (Inl (Error (''Reducer \"'' @ key @ ''\" returned undefined when probed with a random type. '' @
                      ''Don't try to handle '' @ INIT @ '' or other actions in \"redux/*\" '' @
                      ''namespace. They are considered private. Instead, you must return the '' @
                      ''current state for any unknown actions, unless it is undefined, '' @
                      ''in which case you must return the initial state, regardless of the '' @
                      ''action type. The initial state may not be undefined.'')), n2)
                 else assertReducerSanity rest rand (Suc i) n2))"

text \<open>The first loop of \<^verbatim>\<open>combineReducers\<close>: the keys whose value is a function are
  copied to \<open>finalReducers\<close>.\<close>

fun retain ::
  "(string \<times> reducer jsarg) list \<Rightarrow> string list \<Rightarrow> (string \<times> reducer) list \<Rightarrow> (string \<times> reducer) list" where
  "retain reducers [] finalReducers = finalReducers"
| "retain reducers (key # keys) finalReducers =
     retain reducers keys
       (case map_of reducers key of
          Some (Fn r) \<Rightarrow> obj_set finalReducers key r
        | _ \<Rightarrow> finalReducers)"

text \<open>What the closure \<^verbatim>\<open>combination\<close> captures: \<open>finalReducers\<close> (its keys are
  \<open>finalReducerKeys\<close>) and \<open>sanityError\<close>, \<open>None\<close> while the variable is unassigned.\<close>

record composed =
  finalReducers :: "(string \<times> reducer) list"
  sanityError :: "error option"

definition combineReducers ::
  "(string \<times> reducer jsarg) list \<Rightarrow> (nat \<Rightarrow> string) \<Rightarrow> nat \<Rightarrow> composed \<times> nat" where
  "combineReducers reducers rand n =
     (let reducerKeys = map fst reducers;
          final = retain reducers reducerKeys []
      in case assertReducerSanity final rand 0 n of
           (Inl e, n1) \<Rightarrow> (\<lparr>finalReducers = final, sanityError = Some e\<rparr>, n1)
         | (Inr u, n1) \<Rightarrow> (\<lparr>finalReducers = final, sanityError = None\<rparr>, n1))"

text \<open>The loop of \<^verbatim>\<open>combination\<close> over the retained keys, with its two variables
  \<open>hasChanged\<close> and \<open>nextState\<close> (the properties written so far).\<close>

fun combination_loop ::
  "(string \<times> reducer) list \<Rightarrow> jsval \<Rightarrow> jsval \<Rightarrow> bool \<Rightarrow> (string \<times> jsval) list \<Rightarrow> nat \<Rightarrow>
     (error + bool \<times> (string \<times> jsval) list) \<times> nat" where
  "combination_loop [] state action hasChanged nextState n = (Inr (hasChanged, nextState), n)"
| "combination_loop ((key, reducer) # rest) state action hasChanged nextState n =
     (case get_prop state key of
        Inl e \<Rightarrow> (Inl e, n)
      | Inr previousStateForKey \<Rightarrow>
          (case reducer previousStateForKey action n of
             (Inl e, n1) \<Rightarrow> (Inl e, n1)
           | (Inr nextStateForKey, n1) \<Rightarrow>
               if nextStateForKey = Undefined then
                 (case getUndefinedStateErrorMessage key action of
                    Inl e \<Rightarrow> (Inl e, n1)
                  | Inr errorMessage \<Rightarrow> (Inl (Error errorMessage), n1))
               else combination_loop rest state action
                      (hasChanged \<or> strict_neq nextStateForKey previousStateForKey)
                      (obj_set nextState key nextStateForKey) n1))"

text \<open>
  \<^verbatim>\<open>combination(state = {}, action)\<close>: an absent state is replaced by a new empty object
  before the body runs; \<^verbatim>\<open>nextState = {}\<close> takes the next identity.
\<close>

definition combination :: "composed \<Rightarrow> jsval \<Rightarrow> jsval \<Rightarrow> nat \<Rightarrow> (error + jsval) \<times> nat" where
  "combination c state0 action n =
     (let (state, n1) = (if state0 = Undefined then (Obj n [], Suc n) else (state0, n));
          body =
            (case combination_loop (finalReducers c) state action False [] (Suc n1) of
               (Inl e, n2) \<Rightarrow> (Inl e, n2)
             | (Inr (hasChanged, nextState), n2) \<Rightarrow>
                 (Inr (if hasChanged then Obj n1 nextState else state), n2))
      in case sanityError c of
           Some e \<Rightarrow> if truthy_error e then (Inl e, n1) else body
         | None \<Rightarrow> body)"

text \<open>
  The results of the sub-reducer calls one invocation of the composed reducer makes, in key
  order, each with its key and the slice of the state it was given. The list ends where
  a call throws.
\<close>

fun sub_results ::
  "(string \<times> reducer) list \<Rightarrow> jsval \<Rightarrow> jsval \<Rightarrow> nat \<Rightarrow> (string \<times> jsval \<times> jsval) list" where
  "sub_results [] state action n = []"
| "sub_results ((key, reducer) # rest) state action n =
     (case get_prop state key of
        Inl e \<Rightarrow> []
      | Inr previous \<Rightarrow>
          (case reducer previous action n of
             (Inl e, n1) \<Rightarrow> []
           | (Inr v, n1) \<Rightarrow> (key, previous, v) # sub_results rest state action n1))"

section \<open>The store (createStore, src/src/combineReducers.js lines 179-524)\<close>

text \<open>
  The functions the caller hands to the store (reducers and listeners) run with the
  store in reach: a reducer can call \<^verbatim>\<open>dispatch\<close>, a listener can subscribe, unsubscribe
  and dispatch. Such a function is modelled by the calls it makes on the store: a tree
  whose nodes are store calls, each with the continuation that receives the call's outcome
  (the returned value, or the error thrown, which the continuation may rethrow or handle),
  and whose leaves compute the function's own result from the allocation counter.
\<close>

datatype code =
    Compute "nat \<Rightarrow> (error + jsval) \<times> nat"
  | CallGetState "jsval \<Rightarrow> code"
  | CallDispatch jsval "error + jsval \<Rightarrow> code"
  | CallSubscribe "(nat \<times> code) jsarg" "error + nat \<Rightarrow> code"
  | CallUnsubscribe nat code
  | CallReplaceReducer "(jsval \<Rightarrow> jsval \<Rightarrow> code) jsarg" "error + unit \<Rightarrow> code"

text \<open>A listener is a function value: its identity (what \<^verbatim>\<open>indexOf\<close> compares) and its
  body.\<close>

type_synonym listener = "nat \<times> code"

text \<open>
  The variables of one \<^verbatim>\<open>createStore\<close> call. \<open>currentListeners\<close> and \<open>nextListeners\<close>
  hold references to arrays, so that \<^verbatim>\<open>nextListeners === currentListeners\<close> is equality
  of addresses: \<open>arrays\<close> maps an address to the array's elements and \<open>arrays_next\<close> is the
  next free address. Each call of \<^verbatim>\<open>subscribe\<close> creates one entry of \<open>subscriptions\<close>, the
  variables its \<^verbatim>\<open>unsubscribe\<close> closure captures (\<open>listener\<close> and \<open>isSubscribed\<close>); the
  entry's index stands for the closure. \<open>heap_next\<close> is the allocation counter of objects.

  Two fields record what happened and are never read by the operations: \<open>dispatches\<close>
  counts the dispatch calls that went past the guards, which numbers them, and \<open>invoked\<close>
  lists the listener calls, each as the number of the dispatch that made the call and the
  listener's identity.
\<close>

record store =
  currentReducer :: "jsval \<Rightarrow> jsval \<Rightarrow> code"
  currentState :: jsval
  currentListeners :: nat
  nextListeners :: nat
  isDispatching :: bool
  arrays :: "nat \<Rightarrow> listener list"
  arrays_next :: nat
  subscriptions :: "(listener \<times> bool) list"
  heap_next :: nat
  dispatches :: nat
  invoked :: "(nat \<times> nat) list"

definition ensureCanMutateNextListeners :: "store \<Rightarrow> store" where
  "ensureCanMutateNextListeners w =
     (if nextListeners w = currentListeners w
      then w\<lparr>nextListeners := arrays_next w,
             arrays := (arrays w)(arrays_next w := arrays w (currentListeners w)),
             arrays_next := Suc (arrays_next w)\<rparr>
      else w)"

definition getState :: "store \<Rightarrow> jsval" where
  "getState w = currentState w"

text \<open>\<^verbatim>\<open>xs.indexOf(l)\<close> on an array of functions: the first index that holds the function
  \<open>l\<close>, or \<open>-1\<close>.\<close>

fun indexOf :: "listener list \<Rightarrow> listener \<Rightarrow> int" where
  "indexOf [] l = - 1"
| "indexOf (x # xs) l =
     (if fst x = fst l then 0
      else (let i = indexOf xs l in if i < 0 then - 1 else i + 1))"

text \<open>\<^verbatim>\<open>xs.splice(start, 1)\<close>: a negative start counts from the end.\<close>

definition splice1 :: "'a list \<Rightarrow> int \<Rightarrow> 'a list" where
  "splice1 xs start =
     (let len = int (length xs);
          from = (if start < 0 then max (len + start) 0 else min start len)
      in take (nat from) xs @ drop (nat from + 1) xs)"

text \<open>\<^verbatim>\<open>subscribe\<close> returns the \<^verbatim>\<open>unsubscribe\<close> closure: here, the index of its entry.\<close>

fun subscribe :: "listener jsarg \<Rightarrow> store \<Rightarrow> (error + nat) \<times> store" where
  "subscribe (Val v) w = (Inl (Error ''Expected listener to be a function.''), w)"
| "subscribe (Fn listener) w =
     (let w1 = w\<lparr>subscriptions := subscriptions w @ [(listener, True)]\<rparr>;
          w2 = ensureCanMutateNextListeners w1;
          w3 = w2\<lparr>arrays := (arrays w2)(nextListeners w2 := arrays w2 (nextListeners w2) @ [listener])\<rparr>
      in (Inr (length (subscriptions w)), w3))"

text \<open>The closure \<^verbatim>\<open>unsubscribe\<close> of the subscription \<open>h\<close>. An index no \<^verbatim>\<open>subscribe\<close> call
  returned is no closure; calling it does nothing.\<close>

definition unsubscribe :: "nat \<Rightarrow> store \<Rightarrow> store" where
  "unsubscribe h w =
     (if h < length (subscriptions w) then
        (let (listener, isSubscribed) = subscriptions w ! h in
         if \<not> isSubscribed then w
         else
           (let w1 = w\<lparr>subscriptions := (subscriptions w)[h := (listener, False)]\<rparr>;
                w2 = ensureCanMutateNextListeners w1;
                index = indexOf (arrays w2 (nextListeners w2)) listener
            in w2\<lparr>arrays := (arrays w2)(nextListeners w2 := splice1 (arrays w2 (nextListeners w2)) index)\<rparr>))
      else w)"

text \<open>
  \<^verbatim>\<open>dispatch\<close>, with the loop over the listeners (\<open>notify\<close>, which reads the array's length
  and element at each round, as the \<^verbatim>\<open>for\<close> loop does), \<^verbatim>\<open>replaceReducer\<close>, and the run of
  a caller's function (\<open>exec\<close>). A listener may dispatch again without end, so the four
  functions take fuel; \<open>None\<close> is "out of fuel". The \<^verbatim>\<open>finally\<close> block is the reset of
  \<open>isDispatching\<close> on both outcomes of the reducer call.
\<close>

fun exec :: "nat \<Rightarrow> code \<Rightarrow> store \<Rightarrow> ((error + jsval) \<times> store) option"
  and dispatch :: "nat \<Rightarrow> jsval \<Rightarrow> store \<Rightarrow> ((error + jsval) \<times> store) option"
  and notify :: "nat \<Rightarrow> nat \<Rightarrow> nat \<Rightarrow> nat \<Rightarrow> store \<Rightarrow> ((error + unit) \<times> store) option"
  and replaceReducer ::
    "nat \<Rightarrow> (jsval \<Rightarrow> jsval \<Rightarrow> code) jsarg \<Rightarrow> store \<Rightarrow> ((error + unit) \<times> store) option"
where
  "exec 0 c w = None"
| "exec (Suc fuel) (Compute f) w =
     (case f (heap_next w) of (r, m) \<Rightarrow> Some (r, w\<lparr>heap_next := m\<rparr>))"
| "exec (Suc fuel) (CallGetState k) w = exec fuel (k (getState w)) w"
| "exec (Suc fuel) (CallDispatch action k) w =
     (case dispatch fuel action w of
        None \<Rightarrow> None
      | Some (r, w1) \<Rightarrow> exec fuel (k r) w1)"
| "exec (Suc fuel) (CallSubscribe listener k) w =
     (case subscribe listener w of (r, w1) \<Rightarrow> exec fuel (k r) w1)"
| "exec (Suc fuel) (CallUnsubscribe h c) w = exec fuel c (unsubscribe h w)"
| "exec (Suc fuel) (CallReplaceReducer nextReducer k) w =
     (case replaceReducer fuel nextReducer w of
        None \<Rightarrow> None
      | Some (r, w1) \<Rightarrow> exec fuel (k r) w1)"
| "dispatch 0 action w = None"
| "dispatch (Suc fuel) action w =
     (if \<not> isPlainObject action then
        Some (Inl (Error (''Actions must be plain objects. '' @
                          ''Use custom middleware for async actions.'')), w)
      else if get_prop action ''type'' = Inr Undefined then
        Some (Inl (Error (''Actions may not have an undefined \"type\" property. '' @
                          ''Have you misspelled a constant?'')), w)
      else if isDispatching w then
        Some (Inl (Error ''Reducers may not dispatch actions.''), w)
      else
        (let N = dispatches w;
             w1 = w\<lparr>dispatches := Suc N, isDispatching := True\<rparr>
         in case exec fuel (currentReducer w1 (currentState w1) action) w1 of
              None \<Rightarrow> None
            | Some (Inl e, w2) \<Rightarrow> Some (Inl e, w2\<lparr>isDispatching := False\<rparr>)
            | Some (Inr v, w2) \<Rightarrow>
                (let w3 = w2\<lparr>currentState := v, isDispatching := False\<rparr>;
                     w4 = w3\<lparr>currentListeners := nextListeners w3\<rparr>;
                     listeners = nextListeners w3
                 in case notify fuel N listeners 0 w4 of
                      None \<Rightarrow> None
                    | Some (Inl e, w5) \<Rightarrow> Some (Inl e, w5)
                    | Some (Inr u, w5) \<Rightarrow> Some (Inr action, w5))))"
| "notify 0 N listeners i w = None"
| "notify (Suc fuel) N listeners i w =
     (if i < length (arrays w listeners) then
        (let listener = arrays w listeners ! i;
             w1 = w\<lparr>invoked := invoked w @ [(N, fst listener)]\<rparr>
         in case exec fuel (snd listener) w1 of
              None \<Rightarrow> None
            | Some (Inl e, w2) \<Rightarrow> Some (Inl e, w2)
            | Some (Inr v, w2) \<Rightarrow> notify fuel N listeners (Suc i) w2)
      else Some (Inr (), w))"
| "replaceReducer 0 nextReducer w = None"
| "replaceReducer (Suc fuel) (Val v) w =
     Some (Inl (Error ''Expected the nextReducer to be a function.''), w)"
| "replaceReducer (Suc fuel) (Fn nextReducer) w =
     (let w1 = w\<lparr>currentReducer := nextReducer\<rparr>;
          action = Obj (heap_next w1) [(''type'', Str INIT)];
          w2 = w1\<lparr>heap_next := Suc (heap_next w1)\<rparr>
      in case dispatch fuel action w2 of
           None \<Rightarrow> None
         | Some (Inl e, w3) \<Rightarrow> Some (Inl e, w3)
         | Some (Inr a, w3) \<Rightarrow> Some (Inr (), w3))"

text \<open>
  \<^verbatim>\<open>createStore(reducer, preloadedState, enhancer)\<close>. An enhancer is a function of the
  caller's; \<open>call e r p\<close> is the value of \<^verbatim>\<open>e(createStore)(r, p)\<close>. Without an enhancer
  the result is the new store, after the initial dispatch; on that path
  \<open>preloadedState\<close> is no function (a function with no enhancer after it was taken for
  the enhancer by the first test). The reactive adapter (\<^verbatim>\<open>observable\<close>) is not part
  of the model.
\<close>

datatype 'r created = Enhanced 'r | Plain store

definition createStore ::
  "nat \<Rightarrow> ('e \<Rightarrow> (jsval \<Rightarrow> jsval \<Rightarrow> code) jsarg \<Rightarrow> 'e jsarg \<Rightarrow> 'r) \<Rightarrow>
   (jsval \<Rightarrow> jsval \<Rightarrow> code) jsarg \<Rightarrow> 'e jsarg \<Rightarrow> 'e jsarg \<Rightarrow> nat \<Rightarrow> (error + 'r created) option" where
  "createStore fuel call reducer preloadedState0 enhancer0 n =
     (let (preloadedState, enhancer) =
            (case (preloadedState0, enhancer0) of
               (Fn f, Val Undefined) \<Rightarrow> (Val Undefined, Fn f)
             | other \<Rightarrow> (preloadedState0, enhancer0))
      in case enhancer of
           Fn e \<Rightarrow> Some (Inr (Enhanced (call e reducer preloadedState)))
         | Val x \<Rightarrow>
             if x \<noteq> Undefined then Some (Inl (Error ''Expected the enhancer to be a function.''))
             else
               (case reducer of
                  Val v \<Rightarrow> Some (Inl (Error ''Expected the reducer to be a function.''))
                | Fn r \<Rightarrow>
                    (let w = \<lparr>currentReducer = r,
                              currentState = (case preloadedState of Val v \<Rightarrow> v | Fn f \<Rightarrow> Undefined),
                              currentListeners = 0,
                              nextListeners = 0,
                              isDispatching = False,
                              arrays = (\<lambda>a. []),
                              arrays_next = 1,
                              subscriptions = [],
                              heap_next = Suc n,
                              dispatches = 0,
                              invoked = []\<rparr>
                     in case dispatch fuel (Obj n [(''type'', Str INIT)]) w of
                          None \<Rightarrow> None
                        | Some (Inl e, w1) \<Rightarrow> Some (Inl e)
                        | Some (Inr a, w1) \<Rightarrow> Some (Inr (Plain w1)))))"

section \<open>Invariant and frame of the store\<close>

text \<open>
  \<open>store_inv\<close> holds of every store a dispatch can start from: both list variables refer
  to allocated arrays, every recorded listener call belongs to a dispatch already begun,
  and the next subscriber list holds, with multiplicity, the listeners of the subscriptions
  not yet cancelled, in an order the sequence of \<^verbatim>\<open>subscribe\<close> calls allows.

  \<open>changes A w w'\<close> relates a store to a later one: counters only grow, recorded listener
  calls are only added, for dispatches begun in between or numbered in \<open>A\<close>; an array that
  is not open to updates (it is not the next list, or it is also the current list) keeps
  its elements and stays closed; the invariant is kept; and a cancelled subscription stays
  cancelled. \<open>evolves\<close> adds that \<open>isDispatching\<close> is the same before and after.
\<close>



definition store_inv :: "store \<Rightarrow> bool" where
  "store_inv w \<longleftrightarrow>
     currentListeners w < arrays_next w \<and>
     nextListeners w < arrays_next w \<and>
     (\<forall>e \<in> set (invoked w). fst e < dispatches w) \<and>
     mset (map fst (arrays w (nextListeners w))) =
       mset (map (\<lambda>s. fst (fst s)) (filter snd (subscriptions w))) \<and>
     subseq (map fst (arrays w (nextListeners w))) (map (\<lambda>s. fst (fst s)) (subscriptions w))"

definition changes :: "nat set \<Rightarrow> store \<Rightarrow> store \<Rightarrow> bool" where
  "changes A w w' \<longleftrightarrow>
     dispatches w \<le> dispatches w' \<and>
     arrays_next w \<le> arrays_next w' \<and>
     (\<exists>es. invoked w' = invoked w @ es \<and>
           (\<forall>e \<in> set es. fst e < dispatches w' \<and> (fst e \<in> A \<or> dispatches w \<le> fst e))) \<and>
     (\<forall>L. L < arrays_next w \<and> (nextListeners w = L \<longrightarrow> currentListeners w = L) \<longrightarrow>
          arrays w' L = arrays w L \<and> (nextListeners w' = L \<longrightarrow> currentListeners w' = L)) \<and>
     (store_inv w \<longrightarrow> store_inv w') \<and>
     length (subscriptions w) \<le> length (subscriptions w') \<and>
     (\<forall>h < length (subscriptions w).
          fst (subscriptions w' ! h) = fst (subscriptions w ! h) \<and>
          (snd (subscriptions w' ! h) \<longrightarrow> snd (subscriptions w ! h)))"

definition evolves :: "nat set \<Rightarrow> store \<Rightarrow> store \<Rightarrow> bool" where
  "evolves A w w' \<longleftrightarrow> changes A w w' \<and> isDispatching w' = isDispatching w"

section \<open>The middleware enhancer (applyMiddleware, src/src/combineReducers.js lines 525-580)\<close>

text \<open>
  The object a store constructor returns, with the types of its operations left open, and
  the object each middleware receives. \<open>forward\<close> is the function
  \<^verbatim>\<open>(action) => dispatch(action)\<close> of \<^verbatim>\<open>middlewareAPI\<close>: it calls what the variable
  \<^verbatim>\<open>dispatch\<close> holds at the time of the call (the raw dispatch while the chain is built,
  the composed one afterwards), so it is no function of the values at hand when the
  object is built and is a parameter of the model. The store constructor may throw.
\<close>

record ('d, 's, 'g, 'r, 'o) store_object =
  dispatch_of :: 'd
  subscribe_of :: 's
  getState_of :: 'g
  replaceReducer_of :: 'r
  observable_of :: 'o

record ('g, 'd) middlewareAPI =
  api_getState :: 'g
  api_dispatch :: 'd

definition applyMiddleware ::
  "(('g, 'd) middlewareAPI \<Rightarrow> 'd \<Rightarrow> 'd) list \<Rightarrow> 'd \<Rightarrow>
   ('a \<Rightarrow> 'b \<Rightarrow> 'c \<Rightarrow> error + ('d, 's, 'g, 'r, 'o) store_object) \<Rightarrow>
   'a \<Rightarrow> 'b \<Rightarrow> 'c \<Rightarrow> error + ('d, 's, 'g, 'r, 'o) store_object" where
  "applyMiddleware middlewares forward createStore' reducer preloadedState enhancer =
     (case createStore' reducer preloadedState enhancer of
        Inl e \<Rightarrow> Inl e
      | Inr store \<Rightarrow>
          (let middlewareAPI = \<lparr>api_getState = getState_of store, api_dispatch = forward\<rparr>;
               chain = map (\<lambda>middleware. middleware middlewareAPI) middlewares;
               dispatch' = compose chain (dispatch_of store)
           in Inr (store\<lparr>dispatch_of := dispatch'\<rparr>)))"

section \<open>Example inputs\<close>

text \<open>Reducers and composed reducers the theorems below are evaluated on.\<close>

definition counter_reducer :: reducer where
  "counter_reducer state action n =
     (let s = (if state = Undefined then Num 0 else state)
      in (Inr (if get_prop action ''type'' = Inr (Str ''INC'')
               then (case s of Num k \<Rightarrow> Num (k + 1) | other \<Rightarrow> s)
               else s), n))"

definition example_rand :: "nat \<Rightarrow> string" where
  "example_rand i = ''k3x9''"

definition example_composed :: composed where
  "example_composed = fst (combineReducers [(''count'', Fn counter_reducer), (''n'', Val (Num 1))] example_rand 1)"

definition no_default_reducer :: reducer where
  "no_default_reducer state action n = (Inr state, n)"



definition reentrant_reducer :: "jsval \<Rightarrow> jsval \<Rightarrow> code" where
  "reentrant_reducer state action =
     (if get_prop action ''type'' = Inr (Str ''BAD'')
      then CallDispatch (Obj 0 [(''type'', Str ''INC'')]) (\<lambda>r. Compute (\<lambda>m. (r, m)))
      else Compute (counter_reducer state action))"

definition example_store :: store where
  "example_store =
     \<lparr>currentReducer = reentrant_reducer, currentState = Num 0, currentListeners = 0,
      nextListeners = 0, isDispatching = False, arrays = (\<lambda>a. []), arrays_next = 1,
      subscriptions = [], heap_next = 1, dispatches = 1, invoked = []\<rparr>"

definition no_enhancer :: "unit \<Rightarrow> (jsval \<Rightarrow> jsval \<Rightarrow> code) jsarg \<Rightarrow> unit jsarg \<Rightarrow> unit" where
  "no_enhancer e r p = ()"

definition quiet_listener :: listener where
  "quiet_listener = (1, Compute (\<lambda>m. (Inr Undefined, m)))"

definition late_listener :: listener where
  "late_listener = (3, Compute (\<lambda>m. (Inr Undefined, m)))"

definition subscribing_listener :: listener where
  "subscribing_listener = (2, CallSubscribe (Fn late_listener) (\<lambda>r. Compute (\<lambda>m. (Inr Undefined, m))))"

definition listening_store :: store where
  "listening_store =
     snd (subscribe (Fn subscribing_listener) (snd (subscribe (Fn quiet_listener) example_store)))"







definition abc_composed :: composed where
  "abc_composed =
     fst (combineReducers [(''a'', Fn counter_reducer), (''b'', Fn counter_reducer), (''c'', Fn counter_reducer)]
            example_rand 0)"

definition ab_composed :: composed where
  "ab_composed = fst (combineReducers [(''a'', Fn counter_reducer), (''b'', Fn counter_reducer)] example_rand 50)"

definition abc_reducer :: "jsval \<Rightarrow> jsval \<Rightarrow> code" where
  "abc_reducer state action = Compute (combination abc_composed state action)"

definition ab_reducer :: "jsval \<Rightarrow> jsval \<Rightarrow> code" where
  "ab_reducer state action = Compute (combination ab_composed state action)"

definition abc_state :: jsval where
  "abc_state = Obj 100 [(''a'', Num 1), (''b'', Num 2), (''c'', Num 3)]"

section \<open>Properties of the function composer\<close>

declare digits.simps [simp del]


lemma compose_foldr: "compose funcs x = foldr (\<lambda>f composed. f composed) funcs x"
proof (cases funcs rule: rev_cases)
  case Nil
  then show ?thesis by (simp add: compose_def)
next
  case (snoc rest l)
  then show ?thesis
    by (cases rest) (simp_all add: compose_def Let_def nth_append)
qed

text \<open>
  Claim C5. \<open>compose\<close> with no argument is the identity function, \<open>compose\<close> with the one
  argument \<open>f\<close> is \<open>f\<close> itself, and \<open>compose(f, g, h)(x)\<close> is \<open>f(g(h(x)))\<close>: the functions are
  applied from right to left.
\<close>

theorem compose_spec:
  "compose [] = (\<lambda>x. x) \<and> compose [f] = f \<and> (\<forall>x. compose [f, g, h] x = f (g (h x)))"
  by (simp add: compose_def)

theorem compose_spec_witness:
  "compose [] = (\<lambda>x::int. x) \<and> compose [\<lambda>x::int. x + 1] = (\<lambda>x. x + 1) \<and>
   compose [\<lambda>x::int. x + 1, \<lambda>x. 2 * x, \<lambda>x. x - 3] 10 = 15"
proof -
  have "compose [\<lambda>x::int. x + 1, \<lambda>x. 2 * x, \<lambda>x. x - 3] 10 = 2 * (10 - 3) + 1"
    using compose_spec [of "\<lambda>x::int. x + 1" "\<lambda>x. 2 * x" "\<lambda>x. x - 3"] by blast
  moreover have "compose [] = (\<lambda>x::int. x)" "compose [\<lambda>x::int. x + 1] = (\<lambda>x. x + 1)"
    using compose_spec [of "\<lambda>x::int. x + 1"] by blast+
  ultimately show ?thesis by simp
qed

section \<open>Properties of the reducer composer\<close>

lemma obj_set_fresh: "key \<notin> fst ` set ps \<Longrightarrow> obj_set ps key v = ps @ [(key, v)]"
  by (induction ps) auto

lemma obj_set_keys:
  "map fst (obj_set ps key v) = (if key \<in> fst ` set ps then map fst ps else map fst ps @ [key])"
  by (induction ps) auto

lemma obj_set_distinct: "distinct (map fst ps) \<Longrightarrow> distinct (map fst (obj_set ps key v))"
  by (simp add: obj_set_keys)

lemma retain_distinct:
  "distinct (map fst final) \<Longrightarrow> distinct (map fst (retain reducers keys final))"
  by (induction keys arbitrary: final) (auto simp: obj_set_distinct split: option.splits jsarg.splits)

lemma combineReducers_distinct:
  "distinct (map fst (finalReducers (fst (combineReducers reducers rand n))))"
  by (simp add: combineReducers_def Let_def retain_distinct split: prod.splits sum.splits)

lemma get_prop_defined:
  "state \<noteq> Undefined \<Longrightarrow> state \<noteq> Null \<Longrightarrow> \<exists>v. get_prop state key = Inr v"
  by (cases state) auto

lemma combination_loop_complete:
  assumes "length (sub_results es state action n) = length es"
      and "\<forall>(k, p, v) \<in> set (sub_results es state action n). v \<noteq> Undefined"
      and "distinct (map fst es)"
      and "fst ` set es \<inter> fst ` set ns = {}"
  shows "fst (combination_loop es state action hc ns n) =
           Inr (hc \<or> (\<exists>(k, p, v) \<in> set (sub_results es state action n). strict_neq v p),
                ns @ map (\<lambda>(k, p, v). (k, v)) (sub_results es state action n))"
  using assms
proof (induction es arbitrary: hc ns n)
  case Nil
  then show ?case by simp
next
  case (Cons e es)
  obtain key r where e: "e = (key, r)" by (cases e)
  from Cons.prems(1) obtain p where p: "get_prop state key = Inr p"
    by (auto simp: e split: sum.splits)
  from Cons.prems(1) p obtain v n1 where r: "r p action n = (Inr v, n1)"
    by (auto simp: e split: sum.splits prod.splits)
  have subs: "sub_results (e # es) state action n = (key, p, v) # sub_results es state action n1"
    by (simp add: e p r)
  have v: "v \<noteq> Undefined" using Cons.prems(2) subs by simp
  have fresh: "key \<notin> fst ` set ns" using Cons.prems(4) e by auto
  have "fst (combination_loop es state action (hc \<or> strict_neq v p) (obj_set ns key v) n1) =
          Inr ((hc \<or> strict_neq v p) \<or> (\<exists>(k, p, v) \<in> set (sub_results es state action n1). strict_neq v p),
               obj_set ns key v @ map (\<lambda>(k, p, v). (k, v)) (sub_results es state action n1))"
  proof (rule Cons.IH)
    show "length (sub_results es state action n1) = length es"
      using Cons.prems(1) subs by simp
    show "\<forall>(k, p, v) \<in> set (sub_results es state action n1). v \<noteq> Undefined"
      using Cons.prems(2) subs by simp
    show "distinct (map fst es)" using Cons.prems(3) by simp
    show "fst ` set es \<inter> fst ` set (obj_set ns key v) = {}"
      using Cons.prems(3,4) e fresh by (auto simp: obj_set_fresh)
  qed
  then show ?case
    using v by (auto simp: e p r subs obj_set_fresh [OF fresh])
qed

text \<open>
  Claim C1. Let the composed reducer be built by the reducer composer, hold no captured
  sanity error, and be called on a state object, and let every sub-reducer call return a
  present value (\<open>subs\<close> lists the calls: key, input slice, result). If every result is
  reference-equal to its input slice, the composed reducer returns the state object it was
  given; otherwise it returns a new object, with an identity no earlier object has, whose
  properties are the retained keys in order, each with its sub-reducer's result.
\<close>

theorem combination_unchanged_or_fresh:
  assumes built: "c = fst (combineReducers reducers rand m)"
      and sane: "sanityError c = None"
      and state: "state = Obj sid props" "sid < n"
      and subs: "subs = sub_results (finalReducers c) state action (Suc n)"
      and returned: "length subs = length (finalReducers c)"
      and present: "\<forall>(k, p, v) \<in> set subs. v \<noteq> Undefined"
  shows "fst (combination c state action n) =
           Inr (if \<forall>(k, p, v) \<in> set subs. \<not> strict_neq v p then state
                else Obj n (map (\<lambda>(k, p, v). (k, v)) subs)) \<and>
         map (\<lambda>(k, p, v). k) subs = map fst (finalReducers c) \<and>
         strict_neq (Obj n (map (\<lambda>(k, p, v). (k, v)) subs)) state"
proof -
  have d: "distinct (map fst (finalReducers c))"
    unfolding built by (rule combineReducers_distinct)
  have loop: "fst (combination_loop (finalReducers c) state action False [] (Suc n)) =
      Inr (False \<or> (\<exists>(k, p, v) \<in> set subs. strict_neq v p), [] @ map (\<lambda>(k, p, v). (k, v)) subs)"
    unfolding subs
    by (rule combination_loop_complete) (use returned present d subs in auto)
  have keys: "map (\<lambda>(k, p, v). k) (sub_results es state action k) = map fst es"
    if "length (sub_results es state action k) = length es" for es k
    using that
  proof (induction es arbitrary: k)
    case Nil
    then show ?case by simp
  next
    case (Cons e es)
    then show ?case
      by (cases e) (auto split: sum.splits prod.splits)
  qed
  have "map (\<lambda>(k, p, v). k) subs = map fst (finalReducers c)"
    unfolding subs by (rule keys) (use returned subs in simp)
  moreover have "strict_neq (Obj n (map (\<lambda>(k, p, v). (k, v)) subs)) state"
    using state by simp
  moreover have "fst (combination c state action n) =
           Inr (if \<forall>(k, p, v) \<in> set subs. \<not> strict_neq v p then state
                else Obj n (map (\<lambda>(k, p, v). (k, v)) subs))"
    using loop sane state(1)
    by (cases "combination_loop (finalReducers c) state action False [] (Suc n)")
       (auto simp: combination_def)
  ultimately show ?thesis by blast
qed

lemma example_composed_eq:
  "example_composed = \<lparr>finalReducers = [(''count'', counter_reducer)], sanityError = None\<rparr>"
  by (simp add: example_composed_def combineReducers_def counter_reducer_def INIT_def)

theorem combination_unchanged_or_fresh_witness:
  "fst (combination example_composed (Obj 0 [(''count'', Num 3)]) (Obj 5 [(''type'', Str ''NOPE'')]) 6) =
     Inr (Obj 0 [(''count'', Num 3)]) \<and>
   fst (combination example_composed (Obj 0 [(''count'', Num 3)]) (Obj 5 [(''type'', Str ''INC'')]) 6) =
     Inr (Obj 6 [(''count'', Num 4)])"
proof -
  have c: "example_composed = fst (combineReducers [(''count'', Fn counter_reducer), (''n'', Val (Num 1))] example_rand 1)"
    by (simp add: example_composed_def)
  have s: "sanityError example_composed = None"
    by (simp add: example_composed_eq)
  have r1: "sub_results (finalReducers example_composed) (Obj 0 [(''count'', Num 3)])
              (Obj 5 [(''type'', Str ''NOPE'')]) (Suc 6) = [(''count'', Num 3, Num 3)]"
    by (simp add: example_composed_eq counter_reducer_def)
  have r2: "sub_results (finalReducers example_composed) (Obj 0 [(''count'', Num 3)])
              (Obj 5 [(''type'', Str ''INC'')]) (Suc 6) = [(''count'', Num 3, Num 4)]"
    by (simp add: example_composed_eq counter_reducer_def)
  from combination_unchanged_or_fresh [where c = example_composed and n = 6 and sid = 0
      and props = "[(''count'', Num 3)]" and action = "Obj 5 [(''type'', Str ''NOPE'')]", OF c s refl _ r1 [symmetric]]
  have "fst (combination example_composed (Obj 0 [(''count'', Num 3)]) (Obj 5 [(''type'', Str ''NOPE'')]) 6) =
     Inr (Obj 0 [(''count'', Num 3)])"
    by (simp add: example_composed_eq)
  moreover from combination_unchanged_or_fresh [where c = example_composed and n = 6 and sid = 0
      and props = "[(''count'', Num 3)]" and action = "Obj 5 [(''type'', Str ''INC'')]", OF c s refl _ r2 [symmetric]]
  have "fst (combination example_composed (Obj 0 [(''count'', Num 3)]) (Obj 5 [(''type'', Str ''INC'')]) 6) =
     Inr (Obj 6 [(''count'', Num 4)])"
    by (simp add: example_composed_eq)
  ultimately show ?thesis by simp
qed

lemma map_of_obj_set: "map_of (obj_set ps key v) = (map_of ps)(key \<mapsto> v)"
  by (induction ps) auto

lemma set_obj_set: "set (obj_set ps key v) \<subseteq> insert (key, v) (set ps)"
  by (induction ps) auto

lemma retain_keeps:
  "map_of final key = Some r \<Longrightarrow> map_of reducers key = Some (Fn r) \<Longrightarrow>
   map_of (retain reducers keys final) key = Some r"
proof (induction keys arbitrary: final)
  case Nil
  then show ?case by simp
next
  case (Cons k keys)
  have "map_of (case map_of reducers k of Some (Fn r') \<Rightarrow> obj_set final k r' | _ \<Rightarrow> final) key = Some r"
    using Cons.prems
    by (cases "k = key") (auto simp: map_of_obj_set split: option.splits jsarg.splits)
  then show ?case
    using Cons.prems(2) by (simp add: Cons.IH)
qed

lemma retain_adds:
  "key \<in> set keys \<Longrightarrow> map_of reducers key = Some (Fn r) \<Longrightarrow>
   map_of (retain reducers keys final) key = Some r"
proof (induction keys arbitrary: final)
  case Nil
  then show ?case by simp
next
  case (Cons k keys)
  show ?case
  proof (cases "k = key")
    case True
    then show ?thesis
      using Cons.prems by (simp add: retain_keeps map_of_obj_set)
  next
    case False
    then show ?thesis using Cons by simp
  qed
qed

lemma retain_from:
  "(k, r) \<in> set (retain reducers keys final) \<Longrightarrow> (k, r) \<in> set final \<or> (k, Fn r) \<in> set reducers"
proof (induction keys arbitrary: final)
  case Nil
  then show ?case by simp
next
  case (Cons key keys)
  then show ?case
    using set_obj_set by (fastforce split: option.splits jsarg.splits dest: map_of_SomeD)
qed

lemma sanity_fails:
  assumes "(key, r) \<in> set es"
      and "(\<forall>m. fst (r Undefined (Obj m [(''type'', Str INIT)]) (Suc m)) = Inr Undefined) \<or>
           (\<forall>m s. fst (r Undefined (Obj m [(''type'', Str (''@@redux/PROBE_UNKNOWN_ACTION_'' @ join_dots s))])
                      (Suc m)) = Inr Undefined)"
      and "\<forall>(k, r') \<in> set es. \<forall>a m e m'. r' Undefined a m = (Inl e, m') \<longrightarrow> truthy_error e"
  shows "\<exists>e n'. assertReducerSanity es rand i n = (Inl e, n') \<and> truthy_error e"
  using assms
proof (induction es arbitrary: i n)
  case Nil
  then show ?case by simp
next
  case (Cons x es)
  obtain k r' where x: "x = (k, r')" by (cases x)
  have tr: "\<And>a m e m'. r' Undefined a m = (Inl e, m') \<Longrightarrow> truthy_error e"
    using Cons.prems(3) x by auto
  obtain res1 n1 where c1: "r' Undefined (Obj n [(''type'', Str INIT)]) (Suc n) = (res1, n1)"
    by (cases "r' Undefined (Obj n [(''type'', Str INIT)]) (Suc n)")
  let ?t = "''@@redux/PROBE_UNKNOWN_ACTION_'' @ join_dots (rand i)"
  obtain res2 n2 where c2: "r' Undefined (Obj n1 [(''type'', Str ?t)]) (Suc n1) = (res2, n2)"
    by (cases "r' Undefined (Obj n1 [(''type'', Str ?t)]) (Suc n1)")
  show ?case
  proof (cases res1)
    case (Inl e)
    then show ?thesis using c1 tr by (auto simp: x)
  next
    case (Inr v1)
    note r1 = this
    show ?thesis
    proof (cases "v1 = Undefined")
      case True
      then show ?thesis using c1 r1 by (simp add: x)
    next
      case False
      note v1 = this
      show ?thesis
      proof (cases res2)
        case (Inl e)
        then show ?thesis using c1 c2 r1 v1 tr by (auto simp: x)
      next
        case (Inr v2)
        note r2 = this
        show ?thesis
        proof (cases "v2 = Undefined")
          case True
          then show ?thesis using c1 c2 r1 r2 v1 by (simp add: x)
        next
          case False
          have "(key, r) \<in> set es"
          proof (rule ccontr)
            assume "(key, r) \<notin> set es"
            then have "r' = r" using Cons.prems(1) x by auto
            then show False
              using Cons.prems(2) c1 c2 r1 r2 v1 False
              by (metis fst_conv sum.inject(2))
          qed
          moreover have "\<forall>(k, r') \<in> set es. \<forall>a m e m'. r' Undefined a m = (Inl e, m') \<longrightarrow> truthy_error e"
            using Cons.prems(3) by simp
          ultimately have "\<exists>e n'. assertReducerSanity es rand (Suc i) n2 = (Inl e, n') \<and> truthy_error e"
            using Cons.prems(2) Cons.IH by blast
          then obtain e n' where "assertReducerSanity es rand (Suc i) n2 = (Inl e, n')" "truthy_error e"
            by blast
          then show ?thesis using c1 c2 r1 r2 v1 False by (simp add: x)
        qed
      qed
    qed
  qed
qed

text \<open>
  Claim C6. If a sub-reducer fails a sanity probe (it returns \<^verbatim>\<open>undefined\<close> for an absent
  state and the private initialization action, or for an absent state and the probe
  types), then the composition call still returns a composed reducer, which holds the
  captured error, and every invocation of the composed reducer raises that error. The
  values the sub-reducers throw themselves, if any, are taken to be truthy (as every
  \<^verbatim>\<open>Error\<close> is): the composed reducer tests the captured value with \<^verbatim>\<open>if (sanityError)\<close>.
\<close>

theorem sanity_error_deferred:
  assumes sub: "map_of reducers key = Some (Fn r)"
      and fails:
          "(\<forall>m. fst (r Undefined (Obj m [(''type'', Str INIT)]) (Suc m)) = Inr Undefined) \<or>
           (\<forall>m s. fst (r Undefined (Obj m [(''type'', Str (''@@redux/PROBE_UNKNOWN_ACTION_'' @ join_dots s))])
                      (Suc m)) = Inr Undefined)"
      and thrown: "\<forall>(k, f) \<in> set reducers. \<forall>r' a m e m'.
                     f = Fn r' \<longrightarrow> r' Undefined a m = (Inl e, m') \<longrightarrow> truthy_error e"
  shows "\<exists>e. sanityError (fst (combineReducers reducers rand n)) = Some e \<and>
             (\<forall>state action m.
                fst (combination (fst (combineReducers reducers rand n)) state action m) = Inl e)"
proof -
  let ?final = "retain reducers (map fst reducers) []"
  have "key \<in> set (map fst reducers)"
    using sub by (metis map_of_eq_None_iff option.distinct(1) set_map)
  then have "map_of ?final key = Some r"
    using sub by (rule retain_adds)
  then have mem: "(key, r) \<in> set ?final"
    by (rule map_of_SomeD)
  have "\<forall>(k, r') \<in> set ?final. \<forall>a m e m'. r' Undefined a m = (Inl e, m') \<longrightarrow> truthy_error e"
  proof (clarify)
    fix k r' a m e m'
    assume "(k, r') \<in> set ?final" "r' Undefined a m = (Inl e, m')"
    moreover from this have "(k, Fn r') \<in> set reducers"
      using retain_from by fastforce
    ultimately show "truthy_error e" using thrown by blast
  qed
  from sanity_fails [OF mem fails this]
  obtain e n' where e: "assertReducerSanity ?final rand 0 n = (Inl e, n')" "truthy_error e"
    by blast
  then have c: "fst (combineReducers reducers rand n) = \<lparr>finalReducers = ?final, sanityError = Some e\<rparr>"
    by (simp add: combineReducers_def)
  have "fst (combination \<lparr>finalReducers = ?final, sanityError = Some e\<rparr> state action m) = Inl e"
    for state action m
    using e(2) by (simp add: combination_def Let_def split: prod.splits)
  then show ?thesis using c by simp
qed

theorem sanity_error_deferred_witness:
  "sanityError (fst (combineReducers [(''a'', Fn no_default_reducer)] example_rand 0)) =
     Some (Error (''Reducer \"a\" returned undefined during initialization. '' @
               ''If the state passed to the reducer is undefined, you must '' @
               ''explicitly return the initial state. The initial state may '' @
               ''not be undefined.'')) \<and>
   fst (combination (fst (combineReducers [(''a'', Fn no_default_reducer)] example_rand 0))
          (Obj 2 [(''a'', Num 1)]) (Obj 3 [(''type'', Str ''INC'')]) 4) =
     Inl (Error (''Reducer \"a\" returned undefined during initialization. '' @
               ''If the state passed to the reducer is undefined, you must '' @
               ''explicitly return the initial state. The initial state may '' @
               ''not be undefined.''))"
proof -
  let ?c = "fst (combineReducers [(''a'', Fn no_default_reducer)] example_rand 0)"
  have "\<exists>e. sanityError ?c = Some e \<and> (\<forall>state action m. fst (combination ?c state action m) = Inl e)"
    by (rule sanity_error_deferred [where key = "''a''" and r = no_default_reducer])
       (simp_all add: no_default_reducer_def)
  then obtain e where e: "sanityError ?c = Some e"
      "\<forall>state action m. fst (combination ?c state action m) = Inl e"
    by blast
  have "sanityError ?c =
     Some (Error (''Reducer \"a\" returned undefined during initialization. '' @
               ''If the state passed to the reducer is undefined, you must '' @
               ''explicitly return the initial state. The initial state may '' @
               ''not be undefined.''))"
    by (simp add: combineReducers_def no_default_reducer_def)
  with e show ?thesis by simp
qed







section \<open>Properties of the store\<close>

lemma changes_refl: "changes A w w"
  by (simp add: changes_def)

lemma changes_mono: "changes A w w' \<Longrightarrow> A \<subseteq> B \<Longrightarrow> changes B w w'"
  unfolding changes_def by blast

lemma changes_trans:
  assumes "changes A w w1" "changes A w1 w2"
  shows "changes A w w2"
proof -
  from assms(1) obtain es1 where es1: "invoked w1 = invoked w @ es1"
      "\<forall>e \<in> set es1. fst e < dispatches w1 \<and> (fst e \<in> A \<or> dispatches w \<le> fst e)"
    unfolding changes_def by blast
  from assms(2) obtain es2 where es2: "invoked w2 = invoked w1 @ es2"
      "\<forall>e \<in> set es2. fst e < dispatches w2 \<and> (fst e \<in> A \<or> dispatches w1 \<le> fst e)"
    unfolding changes_def by blast
  have d: "dispatches w \<le> dispatches w1" "dispatches w1 \<le> dispatches w2"
    using assms unfolding changes_def by blast+
  have a: "arrays_next w \<le> arrays_next w1" "arrays_next w1 \<le> arrays_next w2"
    using assms unfolding changes_def by blast+
  have log: "invoked w2 = invoked w @ (es1 @ es2) \<and>
        (\<forall>e \<in> set (es1 @ es2). fst e < dispatches w2 \<and> (fst e \<in> A \<or> dispatches w \<le> fst e))"
    using es1 es2 d by fastforce
  have frame: "arrays w2 L = arrays w L \<and> (nextListeners w2 = L \<longrightarrow> currentListeners w2 = L)"
    if "L < arrays_next w" "nextListeners w = L \<longrightarrow> currentListeners w = L" for L
  proof -
    have 1: "arrays w1 L = arrays w L \<and> (nextListeners w1 = L \<longrightarrow> currentListeners w1 = L)"
      using assms(1) that unfolding changes_def by blast
    moreover have "L < arrays_next w1" using that a by simp
    ultimately have "arrays w2 L = arrays w1 L \<and> (nextListeners w2 = L \<longrightarrow> currentListeners w2 = L)"
      using assms(2) unfolding changes_def by blast
    with 1 show ?thesis by simp
  qed
  have inv: "store_inv w \<longrightarrow> store_inv w2"
    using assms unfolding changes_def by blast
  have len: "length (subscriptions w) \<le> length (subscriptions w1)"
      "length (subscriptions w1) \<le> length (subscriptions w2)"
    using assms unfolding changes_def by blast+
  have subs: "fst (subscriptions w2 ! h) = fst (subscriptions w ! h) \<and>
          (snd (subscriptions w2 ! h) \<longrightarrow> snd (subscriptions w ! h))"
    if "h < length (subscriptions w)" for h
  proof -
    have 1: "fst (subscriptions w1 ! h) = fst (subscriptions w ! h) \<and>
          (snd (subscriptions w1 ! h) \<longrightarrow> snd (subscriptions w ! h))"
      using assms(1) that unfolding changes_def by blast
    have "h < length (subscriptions w1)" using that len by simp
    then have "fst (subscriptions w2 ! h) = fst (subscriptions w1 ! h) \<and>
          (snd (subscriptions w2 ! h) \<longrightarrow> snd (subscriptions w1 ! h))"
      using assms(2) unfolding changes_def by blast
    with 1 show ?thesis by simp
  qed
  show ?thesis
    unfolding changes_def
    using d a log frame inv len subs by (intro conjI; (blast | simp))
qed

lemma indexOf_nonneg: "fst l \<in> fst ` set xs \<Longrightarrow> 0 \<le> indexOf xs l"
proof (induction xs)
  case Nil
  then show ?case by simp
next
  case (Cons x xs)
  show ?case
  proof (cases "fst x = fst l")
    case True
    then show ?thesis by simp
  next
    case False
    then have "fst l \<in> fst ` set xs" using Cons.prems by auto
    then have "0 \<le> indexOf xs l" by (rule Cons.IH)
    then show ?thesis using False by (simp add: Let_def)
  qed
qed

lemma splice1_Cons_0: "splice1 (x # xs) 0 = xs"
  by (simp add: splice1_def)

lemma splice1_Cons_Suc: "0 \<le> i \<Longrightarrow> splice1 (x # xs) (i + 1) = x # splice1 xs i"
  by (simp add: splice1_def Let_def min_def nat_add_distrib)

lemma splice1_indexOf:
  "fst l \<in> fst ` set xs \<Longrightarrow>
   splice1 xs (indexOf xs l) =
     takeWhile (\<lambda>x. fst x \<noteq> fst l) xs @ tl (dropWhile (\<lambda>x. fst x \<noteq> fst l) xs)"
proof (induction xs)
  case Nil
  then show ?case by simp
next
  case (Cons x xs)
  show ?case
  proof (cases "fst x = fst l")
    case True
    then show ?thesis by (simp add: splice1_Cons_0)
  next
    case False
    then have mem: "fst l \<in> fst ` set xs" using Cons.prems by auto
    then have "0 \<le> indexOf xs l" by (rule indexOf_nonneg)
    then show ?thesis
      using False Cons.IH [OF mem] by (simp add: Let_def splice1_Cons_Suc)
  qed
qed

lemma remove1_takeWhile:
  "map f (takeWhile (\<lambda>x. f x \<noteq> a) xs @ tl (dropWhile (\<lambda>x. f x \<noteq> a) xs)) = remove1 a (map f xs)"
  by (induction xs) auto

lemma filter_takeWhile:
  "filter (\<lambda>x. f x \<noteq> a) (takeWhile (\<lambda>x. f x \<noteq> a) xs @ tl (dropWhile (\<lambda>x. f x \<noteq> a) xs)) =
   filter (\<lambda>x. f x \<noteq> a) xs"
  by (induction xs) auto

lemma splice1_indexOf_ids:
  "fst l \<in> fst ` set xs \<Longrightarrow> map fst (splice1 xs (indexOf xs l)) = remove1 (fst l) (map fst xs)"
  by (simp only: splice1_indexOf remove1_takeWhile)

lemma splice1_indexOf_others:
  "fst l \<in> fst ` set xs \<Longrightarrow>
   filter (\<lambda>x. fst x \<noteq> fst l) (splice1 xs (indexOf xs l)) = filter (\<lambda>x. fst x \<noteq> fst l) xs"
  by (simp only: splice1_indexOf filter_takeWhile)

lemma subseq_remove1_self: "subseq (remove1 a xs) xs"
  by (induction xs) auto

lemma active_update:
  assumes "h < length subs" "subs ! h = (l, True)"
  shows "mset (map f (filter snd (subs[h := (l, False)]))) =
           mset (map f (filter snd subs)) - {#f (l, True)#}"
proof -
  have "subs = take h subs @ (l, True) # drop (Suc h) subs"
    using assms by (metis id_take_nth_drop)
  moreover have "subs[h := (l, False)] = take h subs @ (l, False) # drop (Suc h) subs"
    using assms by (simp add: upd_conv_take_nth_drop)
  ultimately obtain A B where "subs = A @ (l, True) # B" "subs[h := (l, False)] = A @ (l, False) # B"
    by blast
  then show ?thesis by simp
qed

lemma changes_fields:
  "changes A w (w\<lparr>currentReducer := r\<rparr>)"
  "changes A w (w\<lparr>currentState := v\<rparr>)"
  "changes A w (w\<lparr>isDispatching := b\<rparr>)"
  "changes A w (w\<lparr>heap_next := m\<rparr>)"
  by (simp_all add: changes_def store_inv_def)

lemma changes_begin: "changes A w (w\<lparr>dispatches := Suc (dispatches w), isDispatching := True\<rparr>)"
  by (auto simp: changes_def store_inv_def less_SucI)

lemma changes_snapshot: "changes A w (w\<lparr>currentListeners := nextListeners w\<rparr>)"
  by (simp add: changes_def store_inv_def)

lemma changes_log: "N < dispatches w \<Longrightarrow> changes {N} w (w\<lparr>invoked := invoked w @ [(N, i)]\<rparr>)"
  by (simp add: changes_def store_inv_def)

lemma changes_subscribe: "changes A w (snd (subscribe l w))"
proof (cases l)
  case (Val v)
  then show ?thesis by (simp add: changes_refl)
next
  case (Fn f)
  show ?thesis
  proof (cases "nextListeners w = currentListeners w")
    case True
    then show ?thesis
      unfolding changes_def store_inv_def
      by (simp add: Fn ensureCanMutateNextListeners_def Let_def nth_append)
  next
    case False
    then show ?thesis
      unfolding changes_def store_inv_def
      by (auto simp: Fn ensureCanMutateNextListeners_def Let_def nth_append)
  qed
qed

lemma active_listed:
  assumes "store_inv w" "h < length (subscriptions w)" "subscriptions w ! h = (l, True)"
  shows "fst l \<in> fst ` set (arrays w (nextListeners w))"
proof -
  have "(l, True) \<in> set (filter snd (subscriptions w))"
    using assms(2,3) nth_mem [of h "subscriptions w"] by simp
  then have "fst l \<in># mset (map (\<lambda>s. fst (fst s)) (filter snd (subscriptions w)))"
    by force
  then have "fst l \<in># mset (map fst (arrays w (nextListeners w)))"
    using assms(1) by (simp add: store_inv_def)
  then show ?thesis by simp
qed

text \<open>The effect of the first call of an unsubscribe closure.\<close>

lemma unsubscribe_active:
  assumes "h < length (subscriptions w)" "subscriptions w ! h = (l, True)"
  shows "unsubscribe h w =
           (let w2 = ensureCanMutateNextListeners (w\<lparr>subscriptions := (subscriptions w)[h := (l, False)]\<rparr>)
            in w2\<lparr>arrays := (arrays w2)(nextListeners w2 :=
                     splice1 (arrays w2 (nextListeners w2)) (indexOf (arrays w2 (nextListeners w2)) l))\<rparr>)"
  using assms by (simp add: unsubscribe_def Let_def)

lemma ensure_next_content:
  "arrays (ensureCanMutateNextListeners w) (nextListeners (ensureCanMutateNextListeners w)) =
     arrays w (nextListeners w)"
  by (simp add: ensureCanMutateNextListeners_def)

lemma changes_unsubscribe: "changes A w (unsubscribe h w)"
proof (cases "h < length (subscriptions w) \<and> snd (subscriptions w ! h)")
  case False
  then show ?thesis
    by (auto simp: unsubscribe_def changes_refl split: prod.splits)
next
  case True
  then obtain l where h: "h < length (subscriptions w)" "subscriptions w ! h = (l, True)"
    by (cases "subscriptions w ! h") auto
  let ?xs = "arrays w (nextListeners w)"
  let ?ys = "splice1 ?xs (indexOf ?xs l)"
  have inv: "mset (map fst ?ys) = mset (map (\<lambda>s. fst (fst s)) (filter snd ((subscriptions w)[h := (l, False)]))) \<and>
             subseq (map fst ?ys) (map (\<lambda>s. fst (fst s)) ((subscriptions w)[h := (l, False)]))"
    if "store_inv w"
  proof -
    have mem: "fst l \<in> fst ` set ?xs" using that h by (rule active_listed)
    have ids: "map fst ?ys = remove1 (fst l) (map fst ?xs)"
      using mem by (rule splice1_indexOf_ids)
    have "mset (map fst ?ys) = mset (map (\<lambda>s. fst (fst s)) (filter snd (subscriptions w))) - {#fst l#}"
      using that by (simp add: ids store_inv_def)
    moreover have "mset (map (\<lambda>s. fst (fst s)) (filter snd ((subscriptions w)[h := (l, False)]))) =
        mset (map (\<lambda>s. fst (fst s)) (filter snd (subscriptions w))) - {#fst l#}"
      using active_update [OF h, of "\<lambda>s. fst (fst s)"] by simp
    moreover have "map (\<lambda>s. fst (fst s)) ((subscriptions w)[h := (l, False)]) =
        map (\<lambda>s. fst (fst s)) (subscriptions w)"
      using h by (simp add: map_update list_update_same_conv)
    moreover have "subseq (map fst ?ys) (map (\<lambda>s. fst (fst s)) (subscriptions w))"
    proof -
      have "subseq (map fst ?ys) (map fst ?xs)" by (simp add: ids subseq_remove1_self)
      moreover have "subseq (map fst ?xs) (map (\<lambda>s. fst (fst s)) (subscriptions w))"
        using that by (simp add: store_inv_def)
      ultimately show ?thesis by (rule subseq_order.trans)
    qed
    ultimately show ?thesis by simp
  qed
  have subs: "fst (((subscriptions w)[h := (l, False)]) ! k) = fst (subscriptions w ! k) \<and>
              (snd (((subscriptions w)[h := (l, False)]) ! k) \<longrightarrow> snd (subscriptions w ! k))"
    if "k < length (subscriptions w)" for k
    using that h by (cases "k = h") auto
  show ?thesis
  proof (cases "nextListeners w = currentListeners w")
    case True
    then show ?thesis
      unfolding changes_def
      using inv subs
      by (simp add: unsubscribe_active [OF h] ensureCanMutateNextListeners_def Let_def store_inv_def)
  next
    case False
    then show ?thesis
      unfolding changes_def
      using inv subs
      by (auto simp: unsubscribe_active [OF h] ensureCanMutateNextListeners_def Let_def store_inv_def)
  qed
qed

lemma evolves_refl: "evolves A w w"
  by (simp add: evolves_def changes_refl)

lemma evolves_trans: "evolves A w w1 \<Longrightarrow> evolves A w1 w2 \<Longrightarrow> evolves A w w2"
  unfolding evolves_def using changes_trans by auto

lemma evolves_mono: "evolves A w w' \<Longrightarrow> A \<subseteq> B \<Longrightarrow> evolves B w w'"
  unfolding evolves_def using changes_mono by auto

lemma evolves_dispatches: "evolves A w w' \<Longrightarrow> dispatches w \<le> dispatches w'"
  by (simp add: evolves_def changes_def)

lemma changes_absorb:
  assumes "changes A w w'" "\<forall>a \<in> A. dispatches w \<le> a"
  shows "changes {} w w'"
proof -
  from assms(1) obtain es where es: "invoked w' = invoked w @ es"
      "\<forall>e \<in> set es. fst e < dispatches w' \<and> (fst e \<in> A \<or> dispatches w \<le> fst e)"
    unfolding changes_def by blast
  then have "\<forall>e \<in> set es. fst e < dispatches w' \<and> (fst e \<in> {} \<or> dispatches w \<le> fst e)"
    using assms(2) by blast
  with es(1) have "\<exists>es. invoked w' = invoked w @ es \<and>
      (\<forall>e \<in> set es. fst e < dispatches w' \<and> (fst e \<in> {} \<or> dispatches w \<le> fst e))"
    by blast
  then show ?thesis
    using assms(1) unfolding changes_def by blast
qed

lemma evolves_compute: "evolves A w (w\<lparr>heap_next := m\<rparr>)"
  by (simp add: evolves_def changes_fields)

lemma subscribe_flag: "isDispatching (snd (subscribe l w)) = isDispatching w"
  by (cases l) (simp_all add: ensureCanMutateNextListeners_def Let_def)

lemma evolves_subscribe: "evolves A w (snd (subscribe l w))"
  by (simp add: evolves_def changes_subscribe subscribe_flag)

lemma unsubscribe_flag: "isDispatching (unsubscribe h w) = isDispatching w"
  by (simp add: unsubscribe_def ensureCanMutateNextListeners_def Let_def split: prod.splits)

lemma evolves_unsubscribe: "evolves A w (unsubscribe h w)"
  by (simp add: evolves_def changes_unsubscribe unsubscribe_flag)

lemma evolves_log: "N < dispatches w \<Longrightarrow> evolves {N} w (w\<lparr>invoked := invoked w @ [(N, i)]\<rparr>)"
  by (simp add: evolves_def changes_log)

lemma evolves_replace: "evolves A w (w\<lparr>currentReducer := r, heap_next := m\<rparr>)"
proof -
  have "changes A w (w\<lparr>currentReducer := r\<rparr>)" by (rule changes_fields)
  moreover have "changes A (w\<lparr>currentReducer := r\<rparr>) (w\<lparr>currentReducer := r, heap_next := m\<rparr>)"
    using changes_fields(4) [of A "w\<lparr>currentReducer := r\<rparr>" m] by simp
  ultimately show ?thesis
    by (auto simp: evolves_def intro: changes_trans)
qed

text \<open>The reducer call of a dispatch, between the two assignments of the flag.\<close>

lemma evolves_reducer_threw:
  assumes "\<not> isDispatching w"
      and "evolves {} (w\<lparr>dispatches := Suc (dispatches w), isDispatching := True\<rparr>) w2"
  shows "evolves {} w (w2\<lparr>isDispatching := False\<rparr>)"
proof -
  have "changes {} w (w\<lparr>dispatches := Suc (dispatches w), isDispatching := True\<rparr>)"
    by (rule changes_begin)
  moreover have "changes {} (w\<lparr>dispatches := Suc (dispatches w), isDispatching := True\<rparr>) w2"
    using assms(2) by (simp add: evolves_def)
  moreover have "changes {} w2 (w2\<lparr>isDispatching := False\<rparr>)"
    by (rule changes_fields)
  ultimately have "changes {} w (w2\<lparr>isDispatching := False\<rparr>)"
    by (blast intro: changes_trans)
  then show ?thesis using assms(1) by (simp add: evolves_def)
qed

lemma evolves_reducer_returned:
  assumes "\<not> isDispatching w"
      and "evolves {} (w\<lparr>dispatches := Suc (dispatches w), isDispatching := True\<rparr>) w2"
  shows "evolves {} w (w2\<lparr>currentState := v, isDispatching := False, currentListeners := nextListeners w2\<rparr>)"
proof -
  let ?w3 = "w2\<lparr>currentState := v, isDispatching := False\<rparr>"
  have "changes {} w2 (w2\<lparr>currentState := v\<rparr>)" by (rule changes_fields)
  moreover have "changes {} (w2\<lparr>currentState := v\<rparr>) ?w3"
    using changes_fields(3) [of "{}" "w2\<lparr>currentState := v\<rparr>" False] by simp
  moreover have "changes {} ?w3 (?w3\<lparr>currentListeners := nextListeners ?w3\<rparr>)"
    by (rule changes_snapshot)
  ultimately have "changes {} w2 (w2\<lparr>currentState := v, isDispatching := False, currentListeners := nextListeners w2\<rparr>)"
    by (auto intro: changes_trans)
  moreover have "changes {} w w2"
    using changes_begin [of "{}" w] assms(2) by (auto simp: evolves_def intro: changes_trans)
  ultimately have "changes {} w (w2\<lparr>currentState := v, isDispatching := False, currentListeners := nextListeners w2\<rparr>)"
    by (rule changes_trans [rotated])
  then show ?thesis using assms(1) by (simp add: evolves_def)
qed

lemma evolves_notified:
  assumes "evolves {} w w4" "dispatches w < dispatches w4" "evolves {dispatches w} w4 w5"
  shows "evolves {} w w5"
proof -
  have "evolves {dispatches w} w w5"
    using assms(1,3) by (blast intro: evolves_trans evolves_mono)
  then show ?thesis
    unfolding evolves_def using changes_absorb [of "{dispatches w}" w w5] by simp
qed

lemma store_ops_evolve:
  "(\<forall>c w r w'. exec n c w = Some (r, w') \<longrightarrow> evolves {} w w') \<and>
   (\<forall>a w r w'. dispatch n a w = Some (r, w') \<longrightarrow> evolves {} w w') \<and>
   (\<forall>N L i w r w'. N < dispatches w \<longrightarrow> notify n N L i w = Some (r, w') \<longrightarrow> evolves {N} w w') \<and>
   (\<forall>f w r w'. replaceReducer n f w = Some (r, w') \<longrightarrow> evolves {} w w')"
proof (induction n)
  case 0
  show ?case by simp
next
  case (Suc n)
  then have IHe: "\<And>c w r w'. exec n c w = Some (r, w') \<Longrightarrow> evolves {} w w'"
    and IHd: "\<And>a w r w'. dispatch n a w = Some (r, w') \<Longrightarrow> evolves {} w w'"
    and IHn: "\<And>N L i w r w'. N < dispatches w \<Longrightarrow> notify n N L i w = Some (r, w') \<Longrightarrow> evolves {N} w w'"
    and IHr: "\<And>f w r w'. replaceReducer n f w = Some (r, w') \<Longrightarrow> evolves {} w w'"
    by blast+
  have e: "evolves {} w w'" if run: "exec (Suc n) c w = Some (r, w')" for c w r w'
  proof (cases c)
    case (Compute f)
    then show ?thesis
      using run by (auto simp: evolves_compute split: prod.splits)
  next
    case (CallGetState k)
    then show ?thesis using run IHe by simp
  next
    case (CallDispatch a k)
    with run obtain r1 w1 where "dispatch n a w = Some (r1, w1)" "exec n (k r1) w1 = Some (r, w')"
      by (auto split: option.splits)
    then show ?thesis using IHd IHe evolves_trans by blast
  next
    case (CallSubscribe l k)
    with run have "exec n (k (fst (subscribe l w))) (snd (subscribe l w)) = Some (r, w')"
      by (simp split: prod.splits)
    then have "evolves {} (snd (subscribe l w)) w'" by (rule IHe)
    then show ?thesis using evolves_subscribe evolves_trans by blast
  next
    case (CallUnsubscribe h c')
    with run have "exec n c' (unsubscribe h w) = Some (r, w')" by simp
    then have "evolves {} (unsubscribe h w) w'" by (rule IHe)
    then show ?thesis using evolves_unsubscribe evolves_trans by blast
  next
    case (CallReplaceReducer f k)
    with run obtain r1 w1 where "replaceReducer n f w = Some (r1, w1)" "exec n (k r1) w1 = Some (r, w')"
      by (auto split: option.splits)
    then show ?thesis using IHr IHe evolves_trans by blast
  qed
  have d: "evolves {} w w'" if run: "dispatch (Suc n) a w = Some (r, w')" for a w r w'
  proof (cases "\<not> isPlainObject a \<or> get_prop a ''type'' = Inr Undefined \<or> isDispatching w")
    case True
    then have "w' = w" using run by (auto split: if_splits)
    then show ?thesis by (simp add: evolves_refl)
  next
    case False
    let ?w1 = "w\<lparr>dispatches := Suc (dispatches w), isDispatching := True\<rparr>"
    from False run obtain r2 w2 where
      reducer: "exec n (currentReducer w (currentState w) a) ?w1 = Some (r2, w2)"
      by (auto simp: Let_def split: option.splits)
    then have ev2: "evolves {} ?w1 w2" by (rule IHe)
    show ?thesis
    proof (cases r2)
      case (Inl err)
      then have "w' = w2\<lparr>isDispatching := False\<rparr>"
        using False run reducer by (simp add: Let_def)
      then show ?thesis
        using False ev2 evolves_reducer_threw by simp
    next
      case (Inr v)
      let ?w4 = "w2\<lparr>currentState := v, isDispatching := False, currentListeners := nextListeners w2\<rparr>"
      from Inr False run reducer obtain r5 where
        pass: "notify n (dispatches w) (nextListeners w2) 0 ?w4 = Some (r5, w')"
        by (auto simp: Let_def split: option.splits sum.splits)
      have ev4: "evolves {} w ?w4"
        using False ev2 by (simp add: evolves_reducer_returned)
      have lt: "dispatches w < dispatches ?w4"
        using evolves_dispatches [OF ev2] by simp
      from IHn [OF lt pass] have "evolves {dispatches w} ?w4 w'" .
      with ev4 lt show ?thesis by (rule evolves_notified)
    qed
  qed
  have nt: "evolves {N} w w'"
    if lt: "N < dispatches w" and run: "notify (Suc n) N L i w = Some (r, w')" for N L i w r w'
  proof (cases "i < length (arrays w L)")
    case False
    then have "w' = w" using run by simp
    then show ?thesis by (simp add: evolves_refl)
  next
    case True
    let ?w1 = "w\<lparr>invoked := invoked w @ [(N, fst (arrays w L ! i))]\<rparr>"
    from True run obtain r2 w2 where
      body: "exec n (snd (arrays w L ! i)) ?w1 = Some (r2, w2)"
      by (auto simp: Let_def split: option.splits)
    have ev1: "evolves {N} w ?w1" using lt by (rule evolves_log)
    have ev2: "evolves {N} ?w1 w2" using IHe [OF body] by (rule evolves_mono) simp
    have ev: "evolves {N} w w2" using ev1 ev2 by (rule evolves_trans)
    show ?thesis
    proof (cases r2)
      case (Inl err)
      then have "w' = w2" using True run body by (simp add: Let_def)
      then show ?thesis using ev by simp
    next
      case (Inr v)
      then have rest: "notify n N L (Suc i) w2 = Some (r, w')"
        using True run body by (simp add: Let_def)
      have "N < dispatches w2" using lt evolves_dispatches [OF ev] by simp
      from IHn [OF this rest] ev show ?thesis by (blast intro: evolves_trans)
    qed
  qed
  have rr: "evolves {} w w'" if run: "replaceReducer (Suc n) f w = Some (r, w')" for f w r w'
  proof (cases f)
    case (Val v)
    then show ?thesis using run by (simp add: evolves_refl)
  next
    case (Fn g)
    let ?w2 = "w\<lparr>currentReducer := g, heap_next := Suc (heap_next w)\<rparr>"
    from Fn run obtain r3 where
      "dispatch n (Obj (heap_next w) [(''type'', Str INIT)]) ?w2 = Some (r3, w')"
      by (auto simp: Let_def split: option.splits sum.splits)
    then have "evolves {} ?w2 w'" by (rule IHd)
    then show ?thesis using evolves_replace evolves_trans by blast
  qed
  from e d nt rr show ?case by blast
qed

lemma exec_evolves: "exec n c w = Some (r, w') \<Longrightarrow> evolves {} w w'"
  using store_ops_evolve by blast

lemma dispatch_evolves: "dispatch n a w = Some (r, w') \<Longrightarrow> evolves {} w w'"
  using store_ops_evolve by blast

lemma replaceReducer_evolves: "replaceReducer n f w = Some (r, w') \<Longrightarrow> evolves {} w w'"
  using store_ops_evolve by blast

lemma evolves_inv: "evolves A w w' \<Longrightarrow> store_inv w \<Longrightarrow> store_inv w'"
  by (simp add: evolves_def changes_def)

lemma evolves_flag: "evolves A w w' \<Longrightarrow> isDispatching w' = isDispatching w"
  by (simp add: evolves_def)



lemma evolves_unsubscribed:
  assumes "evolves A w w'" "h < length (subscriptions w)" "\<not> snd (subscriptions w ! h)"
  shows "h < length (subscriptions w')" "\<not> snd (subscriptions w' ! h)"
  using assms unfolding evolves_def changes_def by force+










lemma createStore_dispatches:
  assumes "createStore fuel call reducer preloadedState enhancer n = Some (Inr (Plain w))"
  shows "\<exists>r p. dispatch fuel (Obj n [(''type'', Str INIT)])
            \<lparr>currentReducer = r, currentState = p, currentListeners = 0, nextListeners = 0,
             isDispatching = False, arrays = (\<lambda>a. []), arrays_next = 1, subscriptions = [],
             heap_next = Suc n, dispatches = 0, invoked = []\<rparr> =
           Some (Inr (Obj n [(''type'', Str INIT)]), w)"
proof -
  obtain p e where pe: "(case (preloadedState, enhancer) of
               (Fn f, Val Undefined) \<Rightarrow> (Val Undefined, Fn f)
             | other \<Rightarrow> (preloadedState, enhancer)) = (p, e)"
    by (cases "(case (preloadedState, enhancer) of
               (Fn f, Val Undefined) \<Rightarrow> (Val Undefined, Fn f)
             | other \<Rightarrow> (preloadedState, enhancer))")
  from assms have e: "e = Val Undefined"
    unfolding createStore_def pe by (cases e) (auto simp: Let_def split: if_splits)
  from assms obtain r where r: "reducer = Fn r"
    unfolding createStore_def pe e by (cases reducer) (auto simp: Let_def)
  let ?w0 = "\<lparr>currentReducer = r, currentState = (case p of Val v \<Rightarrow> v | Fn f \<Rightarrow> Undefined),
             currentListeners = 0, nextListeners = 0,
             isDispatching = False, arrays = (\<lambda>a. []), arrays_next = 1, subscriptions = [],
             heap_next = Suc n, dispatches = 0, invoked = []\<rparr>"
  from assms obtain res where res: "dispatch fuel (Obj n [(''type'', Str INIT)]) ?w0 = Some (res, w)"
    unfolding createStore_def pe e r
    by (auto simp: Let_def split: option.splits sum.splits)
  then have "res = Inr (Obj n [(''type'', Str INIT)])"
    using assms unfolding createStore_def pe e r
    by (cases fuel) (auto simp: Let_def INIT_def split: option.splits sum.splits if_splits)
  with res show ?thesis by blast
qed

lemma createStore_inv:
  assumes "createStore fuel call reducer preloadedState enhancer n = Some (Inr (Plain w))"
  shows "store_inv w \<and> \<not> isDispatching w"
proof -
  from createStore_dispatches [OF assms] obtain r p where
    run: "dispatch fuel (Obj n [(''type'', Str INIT)])
            \<lparr>currentReducer = r, currentState = p, currentListeners = 0, nextListeners = 0,
             isDispatching = False, arrays = (\<lambda>a. []), arrays_next = 1, subscriptions = [],
             heap_next = Suc n, dispatches = 0, invoked = []\<rparr> =
           Some (Inr (Obj n [(''type'', Str INIT)]), w)"
    (is "dispatch _ _ ?w0 = _")
    by blast
  have "store_inv ?w0" by (simp add: store_inv_def)
  then show ?thesis
    using dispatch_evolves [OF run] by (simp add: evolves_inv evolves_flag)
qed

text \<open>More fuel does not change a result.\<close>

lemma fuel_mono:
  "(\<forall>c w r. exec n c w = Some r \<longrightarrow> exec (Suc n) c w = Some r) \<and>
   (\<forall>a w r. dispatch n a w = Some r \<longrightarrow> dispatch (Suc n) a w = Some r) \<and>
   (\<forall>N L i w r. notify n N L i w = Some r \<longrightarrow> notify (Suc n) N L i w = Some r) \<and>
   (\<forall>f w r. replaceReducer n f w = Some r \<longrightarrow> replaceReducer (Suc n) f w = Some r)"
proof (induction n)
  case 0
  show ?case by simp
next
  case (Suc n)
  then have IHe: "\<And>c w r. exec n c w = Some r \<Longrightarrow> exec (Suc n) c w = Some r"
    and IHd: "\<And>a w r. dispatch n a w = Some r \<Longrightarrow> dispatch (Suc n) a w = Some r"
    and IHn: "\<And>N L i w r. notify n N L i w = Some r \<Longrightarrow> notify (Suc n) N L i w = Some r"
    and IHr: "\<And>f w r. replaceReducer n f w = Some r \<Longrightarrow> replaceReducer (Suc n) f w = Some r"
    by blast+
  have e: "exec (Suc (Suc n)) c w = Some r" if run: "exec (Suc n) c w = Some r" for c w r
  proof (cases c)
    case (Compute f)
    then show ?thesis using run by simp
  next
    case (CallGetState k)
    then show ?thesis using run IHe by simp
  next
    case (CallDispatch a k)
    with run obtain r1 w1 where "dispatch n a w = Some (r1, w1)" "exec n (k r1) w1 = Some r"
      by (auto split: option.splits)
    then have "dispatch (Suc n) a w = Some (r1, w1)" "exec (Suc n) (k r1) w1 = Some r"
      using IHd IHe by blast+
    then show ?thesis using CallDispatch by simp
  next
    case (CallSubscribe l k)
    with run have "exec n (k (fst (subscribe l w))) (snd (subscribe l w)) = Some r"
      by (simp split: prod.splits)
    then have "exec (Suc n) (k (fst (subscribe l w))) (snd (subscribe l w)) = Some r" by (rule IHe)
    then show ?thesis using CallSubscribe by (cases "subscribe l w") simp
  next
    case (CallUnsubscribe h c')
    with run have "exec n c' (unsubscribe h w) = Some r" by simp
    then have "exec (Suc n) c' (unsubscribe h w) = Some r" by (rule IHe)
    then show ?thesis using CallUnsubscribe by simp
  next
    case (CallReplaceReducer f k)
    with run obtain r1 w1 where "replaceReducer n f w = Some (r1, w1)" "exec n (k r1) w1 = Some r"
      by (auto split: option.splits)
    then have "replaceReducer (Suc n) f w = Some (r1, w1)" "exec (Suc n) (k r1) w1 = Some r"
      using IHr IHe by blast+
    then show ?thesis using CallReplaceReducer by simp
  qed
  have d: "dispatch (Suc (Suc n)) a w = Some r" if run: "dispatch (Suc n) a w = Some r" for a w r
  proof (cases "\<not> isPlainObject a \<or> get_prop a ''type'' = Inr Undefined \<or> isDispatching w")
    case True
    then show ?thesis using run by (auto split: if_splits)
  next
    case False
    let ?w1 = "w\<lparr>dispatches := Suc (dispatches w), isDispatching := True\<rparr>"
    from False run obtain r2 w2 where
      reducer: "exec n (currentReducer w (currentState w) a) ?w1 = Some (r2, w2)"
      by (auto simp: Let_def split: option.splits)
    then have reducer': "exec (Suc n) (currentReducer w (currentState w) a) ?w1 = Some (r2, w2)"
      by (rule IHe)
    show ?thesis
    proof (cases r2)
      case (Inl err)
      then show ?thesis
        using False run reducer reducer' by (simp add: Let_def del: exec.simps notify.simps)
    next
      case (Inr v)
      let ?w4 = "w2\<lparr>currentState := v, isDispatching := False, currentListeners := nextListeners w2\<rparr>"
      from Inr False run reducer obtain r5 w5 where
        pass: "notify n (dispatches w) (nextListeners w2) 0 ?w4 = Some (r5, w5)"
        by (auto simp: Let_def split: option.splits sum.splits)
      then have pass': "notify (Suc n) (dispatches w) (nextListeners w2) 0 ?w4 = Some (r5, w5)"
        by (rule IHn)
      show ?thesis
        using Inr False run reducer reducer' pass pass'
        by (simp add: Let_def del: exec.simps notify.simps)
    qed
  qed
  have nt: "notify (Suc (Suc n)) N L i w = Some r" if run: "notify (Suc n) N L i w = Some r" for N L i w r
  proof (cases "i < length (arrays w L)")
    case False
    then show ?thesis using run by simp
  next
    case True
    let ?w1 = "w\<lparr>invoked := invoked w @ [(N, fst (arrays w L ! i))]\<rparr>"
    from True run obtain r2 w2 where
      body: "exec n (snd (arrays w L ! i)) ?w1 = Some (r2, w2)"
      by (auto simp: Let_def split: option.splits)
    then have body': "exec (Suc n) (snd (arrays w L ! i)) ?w1 = Some (r2, w2)" by (rule IHe)
    show ?thesis
    proof (cases r2)
      case (Inl err)
      then show ?thesis using True run body body' by (simp add: Let_def del: exec.simps)
    next
      case (Inr v)
      then have "notify n N L (Suc i) w2 = Some r"
        using True run body by (simp add: Let_def)
      then have "notify (Suc n) N L (Suc i) w2 = Some r" by (rule IHn)
      then show ?thesis
        using Inr True body' by (subst notify.simps(2)) (simp add: Let_def del: exec.simps notify.simps)
    qed
  qed
  have rr: "replaceReducer (Suc (Suc n)) f w = Some r" if run: "replaceReducer (Suc n) f w = Some r" for f w r
  proof (cases f)
    case (Val v)
    then show ?thesis using run by simp
  next
    case (Fn g)
    let ?w2 = "w\<lparr>currentReducer := g, heap_next := Suc (heap_next w)\<rparr>"
    from Fn run obtain r3 where
      inner: "dispatch n (Obj (heap_next w) [(''type'', Str INIT)]) ?w2 = Some r3"
      by (auto simp: Let_def split: option.splits sum.splits)
    then have "dispatch (Suc n) (Obj (heap_next w) [(''type'', Str INIT)]) ?w2 = Some r3" by (rule IHd)
    then show ?thesis using Fn run inner by (simp add: Let_def del: dispatch.simps)
  qed
  from e d nt rr show ?case by blast
qed

text \<open>A dispatch returns when the reducer and the listeners make no store call and return.\<close>

lemma notify_pure:
  assumes "\<forall>l \<in> set (arrays w L). \<exists>g. snd l = Compute g \<and> (\<forall>h. \<exists>v h'. g h = (Inr v, h'))"
      and "k = length (arrays w L) - i"
  shows "\<exists>w'. notify (Suc (Suc k)) N L i w = Some (Inr (), w') \<and> arrays w' = arrays w"
  using assms
proof (induction k arbitrary: i w)
  case 0
  then show ?case by simp
next
  case (Suc k)
  then have i: "i < length (arrays w L)" by simp
  let ?l = "arrays w L ! i"
  let ?w1 = "w\<lparr>invoked := invoked w @ [(N, fst ?l)]\<rparr>"
  from Suc.prems(1) i obtain g where g: "snd ?l = Compute g" "\<forall>h. \<exists>v h'. g h = (Inr v, h')"
    using nth_mem by blast
  then obtain v h' where v: "g (heap_next ?w1) = (Inr v, h')" by blast
  have body: "exec (Suc (Suc k)) (snd ?l) ?w1 = Some (Inr v, ?w1\<lparr>heap_next := h'\<rparr>)"
    using g(1) v by simp
  have "\<exists>w'. notify (Suc (Suc k)) N L (Suc i) (?w1\<lparr>heap_next := h'\<rparr>) = Some (Inr (), w') \<and>
             arrays w' = arrays (?w1\<lparr>heap_next := h'\<rparr>)"
    using Suc.prems by (intro Suc.IH) simp_all
  then show ?case
    using i body by (subst notify.simps(2)) (simp add: Let_def del: exec.simps notify.simps)
qed

lemma dispatch_pure:
  assumes "\<not> isDispatching w" "isPlainObject b" "get_prop b ''type'' \<noteq> Inr Undefined"
      and "currentReducer w (currentState w) b = Compute f" "f (heap_next w) = (Inr v, m)"
      and "\<forall>l \<in> set (arrays w (nextListeners w)). \<exists>g. snd l = Compute g \<and> (\<forall>h. \<exists>u h'. g h = (Inr u, h'))"
  shows "\<exists>w'. dispatch (Suc (Suc (Suc (length (arrays w (nextListeners w)))))) b w = Some (Inr b, w')"
proof -
  let ?k = "length (arrays w (nextListeners w))"
  let ?w1 = "w\<lparr>dispatches := Suc (dispatches w), isDispatching := True\<rparr>"
  let ?w4 = "w\<lparr>dispatches := Suc (dispatches w), isDispatching := True, heap_next := m,
               currentState := v, isDispatching := False, currentListeners := nextListeners w\<rparr>"
  have reducer: "exec (Suc (Suc ?k)) (Compute f) ?w1 = Some (Inr v, ?w1\<lparr>heap_next := m\<rparr>)"
    using assms(5) by simp
  have "\<exists>w'. notify (Suc (Suc ?k)) (dispatches w) (nextListeners w) 0 ?w4 = Some (Inr (), w') \<and>
             arrays w' = arrays ?w4"
    using assms(6) by (intro notify_pure) simp_all
  then obtain w' where "notify (Suc (Suc ?k)) (dispatches w) (nextListeners w) 0 ?w4 = Some (Inr (), w')"
    by blast
  then have "dispatch (Suc (Suc (Suc ?k))) b w = Some (Inr b, w')"
    using assms(1-4) reducer
    by (subst dispatch.simps(2)) (simp add: Let_def del: exec.simps notify.simps dispatch.simps)
  then show ?thesis by blast
qed

text \<open>
  Claim C3. For an action that passes the two checks on its shape: a dispatch call made
  while a dispatch is in progress throws the reentrancy error and leaves the store as it
  is; so does the call when a function running during a dispatch makes it (the error goes
  to the caller's continuation); in particular, when the reducer's body is
  \<^verbatim>\<open>return dispatch(a)\<close>, the outer dispatch throws the reentrancy error and leaves the
  store unchanged (but for the count of dispatches). And after every dispatch call that
  starts with the flag clear, the flag is clear again, whether the call returned or threw,
  and a next dispatch succeeds: it returns its action when the reducer returns a value
  and the listeners return (here: both without store calls).
\<close>

theorem dispatch_reentrancy:
  assumes "isPlainObject a" "get_prop a ''type'' \<noteq> Inr Undefined"
  shows "(isDispatching w \<longrightarrow>
            dispatch (Suc n) a w = Some (Inl (Error ''Reducers may not dispatch actions.''), w)) \<and>
         (isDispatching w \<longrightarrow>
            exec (Suc (Suc n)) (CallDispatch a k) w =
              exec (Suc n) (k (Inl (Error ''Reducers may not dispatch actions.''))) w) \<and>
         (\<not> isDispatching w \<and> isPlainObject b \<and> get_prop b ''type'' \<noteq> Inr Undefined \<and>
          currentReducer w (currentState w) b = CallDispatch a (\<lambda>r. Compute (\<lambda>m. (r, m))) \<longrightarrow>
            dispatch (Suc (Suc (Suc n))) b w =
              Some (Inl (Error ''Reducers may not dispatch actions.''), w\<lparr>dispatches := Suc (dispatches w)\<rparr>)) \<and>
         (\<not> isDispatching w \<and> dispatch fuel c w = Some (r, w') \<longrightarrow>
            \<not> isDispatching w' \<and>
            (\<forall>f v m.
               currentReducer w' (currentState w') a = Compute f \<and> f (heap_next w') = (Inr v, m) \<and>
               (\<forall>l \<in> set (arrays w' (nextListeners w')).
                  \<exists>g. snd l = Compute g \<and> (\<forall>h. \<exists>u h'. g h = (Inr u, h'))) \<longrightarrow>
               (\<exists>w''. dispatch (Suc (Suc (Suc (length (arrays w' (nextListeners w')))))) a w' =
                        Some (Inr a, w''))))"
proof -
  have guard: "dispatch (Suc m) a w0 = Some (Inl (Error ''Reducers may not dispatch actions.''), w0)"
    if "isDispatching w0" for m w0
    using assms that by simp
  have call: "exec (Suc (Suc n)) (CallDispatch a k) w =
              exec (Suc n) (k (Inl (Error ''Reducers may not dispatch actions.''))) w"
    if "isDispatching w"
    using guard [OF that, of n] by simp
  have nested: "dispatch (Suc (Suc (Suc n))) b w =
      Some (Inl (Error ''Reducers may not dispatch actions.''), w\<lparr>dispatches := Suc (dispatches w)\<rparr>)"
    if "\<not> isDispatching w" "isPlainObject b" "get_prop b ''type'' \<noteq> Inr Undefined"
       "currentReducer w (currentState w) b = CallDispatch a (\<lambda>r. Compute (\<lambda>m. (r, m)))"
  proof -
    let ?w1 = "w\<lparr>dispatches := Suc (dispatches w), isDispatching := True\<rparr>"
    have "exec (Suc (Suc n)) (CallDispatch a (\<lambda>r. Compute (\<lambda>m. (r, m)))) ?w1 =
            Some (Inl (Error ''Reducers may not dispatch actions.''), ?w1)"
      using guard [of ?w1 n] by simp
    then show ?thesis
      using that by (simp add: Let_def)
  qed
  have reset: "\<not> isDispatching w'" if "\<not> isDispatching w" "dispatch fuel c w = Some (r, w')"
    using dispatch_evolves [OF that(2)] that(1) by (simp add: evolves_flag)
  have again: "\<exists>w''. dispatch (Suc (Suc (Suc (length (arrays w' (nextListeners w')))))) a w' =
                        Some (Inr a, w'')"
    if "\<not> isDispatching w" "dispatch fuel c w = Some (r, w')"
       "currentReducer w' (currentState w') a = Compute f" "f (heap_next w') = (Inr v, m)"
       "\<forall>l \<in> set (arrays w' (nextListeners w')).
          \<exists>g. snd l = Compute g \<and> (\<forall>h. \<exists>u h'. g h = (Inr u, h'))"
    for f v m
    using reset [OF that(1,2)] assms that(3-5) by (rule dispatch_pure)
  from guard call nested reset again show ?thesis by blast
qed

text \<open>What \<^verbatim>\<open>subscribe\<close> returns is the closure of a new subscription, not yet cancelled.\<close>

lemma subscribe_handle:
  assumes "subscribe (Fn l) w = (r, w')"
  shows "r = Inr (length (subscriptions w)) \<and>
         length (subscriptions w) < length (subscriptions w') \<and>
         subscriptions w' ! length (subscriptions w) = (l, True) \<and>
         (store_inv w \<longrightarrow> store_inv w')"
proof -
  have "store_inv w \<longrightarrow> store_inv w'"
    using changes_subscribe [of "{}" w "Fn l"] assms by (simp add: changes_def)
  then show ?thesis
    using assms by (auto simp: ensureCanMutateNextListeners_def Let_def)
qed

text \<open>
  Claim C9. Let \<open>h\<close> be the unsubscribe closure of a subscription of the listener \<open>l\<close> that
  has not been called yet, on a store that satisfies the invariant. The listener is in
  the next subscriber list; the first call removes one occurrence of it (the first) from
  that list and nothing else: every other listener stays, in place, and the current list
  is untouched. A second call changes nothing, nor does any later call after whatever the
  caller's functions do to the store in between.
\<close>

theorem unsubscribe_idempotent:
  assumes inv: "store_inv w"
      and handle: "h < length (subscriptions w)" "subscriptions w ! h = (l, True)"
      and first: "w1 = unsubscribe h w"
  shows "fst l \<in> set (map fst (arrays w (nextListeners w))) \<and>
         map fst (arrays w1 (nextListeners w1)) = remove1 (fst l) (map fst (arrays w (nextListeners w))) \<and>
         filter (\<lambda>x. fst x \<noteq> fst l) (arrays w1 (nextListeners w1)) =
           filter (\<lambda>x. fst x \<noteq> fst l) (arrays w (nextListeners w)) \<and>
         arrays w1 (currentListeners w1) = arrays w (currentListeners w) \<and>
         unsubscribe h w1 = w1 \<and>
         (\<forall>n c r w2. exec n c w1 = Some (r, w2) \<longrightarrow> unsubscribe h w2 = w2) \<and>
         store_inv w1"
proof -
  let ?xs = "arrays w (nextListeners w)"
  have mem: "fst l \<in> fst ` set ?xs" using inv handle by (rule active_listed)
  have next1: "arrays w1 (nextListeners w1) = splice1 ?xs (indexOf ?xs l)"
    unfolding first unsubscribe_active [OF handle]
    by (simp add: ensureCanMutateNextListeners_def Let_def)
  have cur: "arrays w1 (currentListeners w1) = arrays w (currentListeners w)"
    using inv unfolding first unsubscribe_active [OF handle]
    by (auto simp: ensureCanMutateNextListeners_def Let_def store_inv_def)
  have sub1: "h < length (subscriptions w1)" "\<not> snd (subscriptions w1 ! h)"
    using handle unfolding first unsubscribe_active [OF handle]
    by (simp_all add: ensureCanMutateNextListeners_def Let_def)
  have noop: "unsubscribe h w' = w'" if "h < length (subscriptions w')" "\<not> snd (subscriptions w' ! h)" for w'
    using that by (cases "subscriptions w' ! h") (simp add: unsubscribe_def)
  have later: "unsubscribe h w2 = w2" if "exec n c w1 = Some (r, w2)" for n c r w2
    using evolves_unsubscribed [OF exec_evolves [OF that] sub1] by (rule noop)
  have "store_inv w1"
    using changes_unsubscribe [of "{}" w h] inv by (simp add: first changes_def)
  then show ?thesis
    using mem next1 cur noop [OF sub1] later
    by (simp add: splice1_indexOf_ids splice1_indexOf_others)
qed

lemma example_store_created:
  "createStore (Suc (Suc 0)) no_enhancer (Fn reentrant_reducer) (Val Undefined) (Val Undefined) 0 =
     Some (Inr (Plain example_store))"
  by (simp add: createStore_def reentrant_reducer_def counter_reducer_def INIT_def example_store_def)

lemmas example_defs =
  listening_store_def example_store_def quiet_listener_def subscribing_listener_def late_listener_def
  reentrant_reducer_def counter_reducer_def ensureCanMutateNextListeners_def Let_def

lemma listening_store_inv: "store_inv listening_store"
  by (simp add: store_inv_def example_defs)





theorem dispatch_reentrancy_witness:
  "dispatch (Suc (Suc (Suc 0))) (Obj 7 [(''type'', Str ''BAD'')]) example_store =
     Some (Inl (Error ''Reducers may not dispatch actions.''), example_store\<lparr>dispatches := 2\<rparr>) \<and>
   dispatch (Suc (Suc (Suc 0))) (Obj 8 [(''type'', Str ''INC'')]) (example_store\<lparr>dispatches := 2\<rparr>) =
     Some (Inr (Obj 8 [(''type'', Str ''INC'')]), example_store\<lparr>dispatches := 3, currentState := Num 1\<rparr>)"
proof -
  have "dispatch (Suc (Suc (Suc 0))) (Obj 7 [(''type'', Str ''BAD'')]) example_store =
     Some (Inl (Error ''Reducers may not dispatch actions.''),
           example_store\<lparr>dispatches := Suc (dispatches example_store)\<rparr>)"
    using dispatch_reentrancy [where a = "Obj 0 [(''type'', Str ''INC'')]" and w = example_store
        and b = "Obj 7 [(''type'', Str ''BAD'')]" and n = 0]
    by (simp add: example_store_def reentrant_reducer_def)
  moreover have "dispatch (Suc (Suc (Suc 0))) (Obj 8 [(''type'', Str ''INC'')]) (example_store\<lparr>dispatches := 2\<rparr>) =
     Some (Inr (Obj 8 [(''type'', Str ''INC'')]), example_store\<lparr>dispatches := 3, currentState := Num 1\<rparr>)"
    by (simp add: example_store_def reentrant_reducer_def counter_reducer_def)
  ultimately show ?thesis by (simp add: example_store_def)
qed

theorem unsubscribe_idempotent_witness:
  "map fst (arrays (unsubscribe 0 listening_store) (nextListeners (unsubscribe 0 listening_store))) = [2] \<and>
   map fst (arrays (unsubscribe 0 listening_store) (currentListeners (unsubscribe 0 listening_store))) = [] \<and>
   unsubscribe 0 (unsubscribe 0 listening_store) = unsubscribe 0 listening_store"
proof -
  have h: "0 < length (subscriptions listening_store)"
      "subscriptions listening_store ! 0 = (quiet_listener, True)"
    by (simp_all add: example_defs)
  from unsubscribe_idempotent [OF listening_store_inv h refl]
  have "map fst (arrays (unsubscribe 0 listening_store) (nextListeners (unsubscribe 0 listening_store))) =
          remove1 (fst quiet_listener) (map fst (arrays listening_store (nextListeners listening_store)))"
    and "arrays (unsubscribe 0 listening_store) (currentListeners (unsubscribe 0 listening_store)) =
          arrays listening_store (currentListeners listening_store)"
    and "unsubscribe 0 (unsubscribe 0 listening_store) = unsubscribe 0 listening_store"
    by blast+
  then show ?thesis by (simp add: example_defs)
qed

lemma abc_composed_eq:
  "abc_composed = \<lparr>finalReducers = [(''a'', counter_reducer), (''b'', counter_reducer), (''c'', counter_reducer)],
                   sanityError = None\<rparr>"
  by (simp add: abc_composed_def combineReducers_def counter_reducer_def INIT_def)

lemma ab_composed_eq:
  "ab_composed = \<lparr>finalReducers = [(''a'', counter_reducer), (''b'', counter_reducer)], sanityError = None\<rparr>"
  by (simp add: ab_composed_def combineReducers_def counter_reducer_def INIT_def)

text \<open>
  Claim C4 does not hold of the code. A store is created with the state \<open>{a, b, c}\<close> and
  a composed reducer for \<open>a\<close>, \<open>b\<close> and \<open>c\<close>; its reducer is replaced by a composed reducer for
  \<open>a\<close> and \<open>b\<close>. Both sub-reducers return their slice for the initialization action, so the
  composed reducer returns the state object it was given and \<open>getState\<close> still shows \<open>c\<close>.
  The key goes only when a later action changes a slice.
\<close>

theorem replaceReducer_keeps_unexpected_key:
  "(case createStore (Suc (Suc 0)) no_enhancer (Fn abc_reducer) (Val abc_state) (Val Undefined) 101 of
      Some (Inr (Plain w0)) \<Rightarrow>
        (case replaceReducer (Suc (Suc (Suc 0))) (Fn ab_reducer) w0 of
           Some (Inr u, w1) \<Rightarrow>
             getState w0 = Obj 100 [(''a'', Num 1), (''b'', Num 2), (''c'', Num 3)] \<and>
             getState w1 = Obj 100 [(''a'', Num 1), (''b'', Num 2), (''c'', Num 3)] \<and>
             (case dispatch (Suc (Suc 0)) (Obj 99 [(''type'', Str ''INC'')]) w1 of
                Some (Inr a, w2) \<Rightarrow> getState w2 = Obj 105 [(''a'', Num 2), (''b'', Num 3)]
              | other \<Rightarrow> False)
         | other \<Rightarrow> False)
    | other \<Rightarrow> False)"
  by (simp add: createStore_def abc_reducer_def ab_reducer_def abc_state_def abc_composed_eq ab_composed_eq
      combination_def counter_reducer_def INIT_def getState_def Let_def)

section \<open>Properties of the middleware enhancer\<close>

lemma applyMiddleware_chain:
  assumes "createStore' reducer preloadedState enhancer = Inr store"
  shows "\<exists>augmented.
           applyMiddleware middlewares forward createStore' reducer preloadedState enhancer = Inr augmented \<and>
           dispatch_of augmented =
             foldr (\<lambda>middleware next.
                      middleware \<lparr>api_getState = getState_of store, api_dispatch = forward\<rparr> next)
                   middlewares (dispatch_of store)"
  using assms by (simp add: applyMiddleware_def compose_foldr foldr_map comp_def)

text \<open>
  Claim C8. For a store built through the middleware enhancer with the middlewares
  \<open>m1 .. mK\<close>, the dispatch of the augmented store is
  \<open>compose [m1 api, .., mK api]\<close> applied to the dispatch of the raw store, where \<open>api\<close> is the
  object the middlewares receive, and every other operation of the augmented store is the
  raw store's operation.
\<close>

theorem applyMiddleware_dispatch:
  assumes "createStore' reducer preloadedState enhancer = Inr store"
  shows "\<exists>augmented.
           applyMiddleware middlewares forward createStore' reducer preloadedState enhancer = Inr augmented \<and>
           dispatch_of augmented =
             compose (map (\<lambda>m. m \<lparr>api_getState = getState_of store, api_dispatch = forward\<rparr>) middlewares)
               (dispatch_of store) \<and>
           getState_of augmented = getState_of store \<and>
           subscribe_of augmented = subscribe_of store \<and>
           replaceReducer_of augmented = replaceReducer_of store \<and>
           observable_of augmented = observable_of store"
  using assms by (simp add: applyMiddleware_def)

theorem applyMiddleware_dispatch_witness:
  "\<exists>augmented.
     applyMiddleware
       [\<lambda>api next (a::int). next (a + 1) @ [api_getState api], \<lambda>api next a. next (2 * a)]
       (\<lambda>a. [])
       (\<lambda>(r::unit) (p::unit) (e::unit).
          Inr \<lparr>dispatch_of = (\<lambda>a. [a]), subscribe_of = (), getState_of = (7::int),
               replaceReducer_of = (), observable_of = ()\<rparr>)
       () () () = Inr augmented \<and>
     dispatch_of augmented 5 = [12, 7] \<and> getState_of augmented = 7"
proof -
  let ?store = "\<lparr>dispatch_of = (\<lambda>a::int. [a]), subscribe_of = (), getState_of = (7::int),
               replaceReducer_of = (), observable_of = ()\<rparr>"
  let ?ms = "[\<lambda>api next (a::int). next (a + 1) @ [api_getState api], \<lambda>api next a. next (2 * a)]"
  have "\<exists>augmented.
          applyMiddleware ?ms (\<lambda>a. []) (\<lambda>(r::unit) (p::unit) (e::unit). Inr ?store) () () () =
            Inr augmented \<and>
          dispatch_of augmented =
            compose (map (\<lambda>m. m \<lparr>api_getState = getState_of ?store, api_dispatch = (\<lambda>a. [])\<rparr>) ?ms)
              (dispatch_of ?store) \<and>
          getState_of augmented = getState_of ?store \<and>
          subscribe_of augmented = subscribe_of ?store \<and>
          replaceReducer_of augmented = replaceReducer_of ?store \<and>
          observable_of augmented = observable_of ?store"
    using applyMiddleware_dispatch [where createStore' = "\<lambda>(r::unit) (p::unit) (e::unit). Inr ?store"
        and reducer = "()" and preloadedState = "()" and enhancer = "()" and store = "?store"
        and middlewares = "?ms" and forward = "\<lambda>a. []"]
    by simp
  then obtain augmented where
    "applyMiddleware ?ms (\<lambda>a. []) (\<lambda>(r::unit) (p::unit) (e::unit). Inr ?store) () () () = Inr augmented"
    "dispatch_of augmented =
       compose (map (\<lambda>m. m \<lparr>api_getState = getState_of ?store, api_dispatch = (\<lambda>a. [])\<rparr>) ?ms)
         (dispatch_of ?store)"
    "getState_of augmented = getState_of ?store"
    by blast
  then show ?thesis by (simp add: compose_def)
qed

section \<open>Properties of store construction\<close>

text \<open>
  Claim C10. When \<^verbatim>\<open>createStore\<close> is called with a function as its second argument and no
  third argument, the function is taken for the enhancer and the preloaded state for
  absent: the result is \<^verbatim>\<open>enhancer(createStore)(reducer, undefined)\<close>, the same as that of
  \<^verbatim>\<open>createStore(reducer, undefined, enhancer)\<close>.
\<close>

theorem createStore_enhancer_shift:
  "createStore fuel call reducer (Fn f) (Val Undefined) n =
     Some (Inr (Enhanced (call f reducer (Val Undefined)))) \<and>
   createStore fuel call reducer (Fn f) (Val Undefined) n =
     createStore fuel call reducer (Val Undefined) (Fn f) n"
  by (simp add: createStore_def)

theorem createStore_enhancer_shift_witness:
  "createStore 0 (\<lambda>(e::nat) r p. (e, p)) (Val (Num 1)) (Fn 3) (Val Undefined) 0 =
     Some (Inr (Enhanced (3, Val Undefined))) \<and>
   createStore 0 (\<lambda>(e::nat) r p. (e, p)) (Val (Num 1)) (Fn 3) (Val Undefined) 0 =
     createStore 0 (\<lambda>(e::nat) r p. (e, p)) (Val (Num 1)) (Val Undefined) (Fn 3) 0"
  by (rule createStore_enhancer_shift)

end
